theory Spec2Isabelle
  imports Complex_Main "HOL-Library.Multiset" "HOL-Library.Sublist" "HOL-Library.Log_Nat"
begin

section \<open>Python values\<close>

text \<open>
  A Python \<open>str\<close> is a sequence of Unicode code points; slicing and \<open>strip\<close> count code
  points, so a string is modelled as the list of its code points.
\<close>

type_synonym pystr = "nat list"

text \<open>
  A finite float \<open>Finite m e\<close> stands for the number \<open>m * 2 ^ e\<close> (every IEEE double has this
  shape); the three special values are the ones \<open>json.loads\<close> can produce.
\<close>

datatype pyfloat = Finite int int | PosInf | NegInf | NaN

text \<open>The values \<open>json.loads\<close> returns: \<open>None\<close>, booleans, integers, floats, strings, lists, dicts.\<close>

datatype pyval =
    PNone
  | PBool bool
  | PInt int
  | PFloat pyfloat
  | PStr pystr
  | PList "pyval list"
  | PDict "(pystr \<times> pyval) list"

text \<open>The exceptions the code can meet; a handler for \<open>Exception\<close> catches every one of them.\<close>

datatype py_error =
    KeyError
  | TypeError
  | ValueError
  | OverflowError
  | AttributeError
  | ZeroDivisionError
  | JSONDecodeError
  | RequestException
  | OtherException

section \<open>Articles and sources\<close>

text \<open>
  An article is a Python dict. Each key the code reads or writes is a field; \<open>None\<close> means
  the key is absent, so \<open>article['k']\<close> raises \<open>KeyError\<close> there and \<open>article.get('k', d)\<close>
  gives \<open>d\<close>. The first ten keys are written by the fetcher (\<open>_parse_entry\<close>), the last
  four and \<open>summary\<close> by the classifier (\<open>article.update(analysis)\<close>), which stores values of
  the remote reply as they are; \<open>hot_score\<close> is always the result of \<open>int(...)\<close>.
\<close>

record article =
  title :: "pystr option"
  link :: "pystr option"
  content :: "pystr option"
  summary :: "pyval option"
  published :: "int option"
  source :: "pystr option"
  source_category :: "pystr option"
  language :: "pystr option"
  authors :: "pyval list option"
  tags :: "pyval list option"
  category :: "pyval option"
  hot_score :: "int option"
  key_words :: "pyval option"
  reasoning :: "pyval option"

section \<open>Deduplication (fetch\_rss.py, RSSFetcher.deduplicate)\<close>

text \<open>\<open>key = (article['title'], article['link'])\<close>: either subscript raises \<open>KeyError\<close>.\<close>

definition article_key :: "article \<Rightarrow> py_error + (pystr \<times> pystr)" where
  "article_key a =
     (case title a of
        None \<Rightarrow> Inl KeyError
      | Some t \<Rightarrow> (case link a of None \<Rightarrow> Inl KeyError | Some l \<Rightarrow> Inr (t, l)))"

text \<open>The \<open>for\<close> loop of \<open>deduplicate\<close>, with its two variables \<open>seen\<close> and \<open>unique_articles\<close>.\<close>

fun dedup_loop :: "article list \<Rightarrow> (pystr \<times> pystr) set \<Rightarrow> article list \<Rightarrow> py_error + article list" where
  "dedup_loop [] seen unique_articles = Inr unique_articles"
| "dedup_loop (a # rest) seen unique_articles =
     (case article_key a of
        Inl e \<Rightarrow> Inl e
      | Inr key \<Rightarrow>
          if key \<notin> seen then dedup_loop rest (insert key seen) (unique_articles @ [a])
          else dedup_loop rest seen unique_articles)"

definition deduplicate :: "article list \<Rightarrow> py_error + article list" where
  "deduplicate articles = dedup_loop articles {} []"

text \<open>
  The specification's reading, for comparison with the code: the identity of an article is
  its (title, link) pair, and the element at position \<open>i\<close> is a first occurrence when no
  earlier element has its identity.
\<close>

definition identity :: "article \<Rightarrow> pystr option \<times> pystr option" where
  "identity a = (title a, link a)"

definition first_occurrences :: "article list \<Rightarrow> article list" where
  "first_occurrences xs =
     map snd (filter (\<lambda>(i, x). identity x \<notin> identity ` set (take i xs)) (enumerate 0 xs))"

text \<open>The elements of a list whose key is neither in \<open>S\<close> nor carried by an earlier element.\<close>

fun unseen :: "('a \<Rightarrow> 'k) \<Rightarrow> 'k set \<Rightarrow> 'a list \<Rightarrow> 'a list" where
  "unseen k S [] = []"
| "unseen k S (x # xs) =
     (if k x \<in> S then unseen k S xs else x # unseen k (insert (k x) S) xs)"

definition has_identity :: "article \<Rightarrow> bool" where
  "has_identity a \<longleftrightarrow> title a \<noteq> None \<and> link a \<noteq> None"

section \<open>Python operations used by the classifier\<close>

text \<open>
  \<open>str.isspace\<close> of one code point, and \<open>str.strip()\<close>, \<open>startswith\<close>, \<open>endswith\<close>.
\<close>

definition py_isspace :: "nat \<Rightarrow> bool" where
  "py_isspace c \<longleftrightarrow>
     (9 \<le> c \<and> c \<le> 13) \<or> (28 \<le> c \<and> c \<le> 32) \<or> c = 133 \<or> c = 160 \<or> c = 5760
     \<or> (8192 \<le> c \<and> c \<le> 8202) \<or> c = 8232 \<or> c = 8233 \<or> c = 8239 \<or> c = 8287 \<or> c = 12288"

definition strip :: "pystr \<Rightarrow> pystr" where
  "strip s = rev (dropWhile py_isspace (rev (dropWhile py_isspace s)))"

definition startswith :: "pystr \<Rightarrow> pystr \<Rightarrow> bool" where
  "startswith s p \<longleftrightarrow> take (length p) s = p"

definition endswith :: "pystr \<Rightarrow> pystr \<Rightarrow> bool" where
  "endswith s p \<longleftrightarrow> length p \<le> length s \<and> drop (length s - length p) s = p"

text \<open>\<open>result.get(key, default)\<close>: only a dict has the method.\<close>

definition py_get :: "pyval \<Rightarrow> pystr \<Rightarrow> pyval \<Rightarrow> py_error + pyval" where
  "py_get result key dflt =
     (case result of
        PDict kvs \<Rightarrow> Inr (case map_of kvs key of None \<Rightarrow> dflt | Some v \<Rightarrow> v)
      | _ \<Rightarrow> Inl AttributeError)"

text \<open>\<open>v[:n]\<close>: strings and lists can be sliced, nothing else a reply holds can.\<close>

definition py_slice :: "nat \<Rightarrow> pyval \<Rightarrow> py_error + pyval" where
  "py_slice n v =
     (case v of
        PStr s \<Rightarrow> Inr (PStr (take n s))
      | PList xs \<Rightarrow> Inr (PList (take n xs))
      | _ \<Rightarrow> Inl TypeError)"

text \<open>\<open>int(f)\<close> of a float truncates towards zero; infinities and NaN raise.\<close>

definition float_to_int :: "pyfloat \<Rightarrow> py_error + int" where
  "float_to_int f =
     (case f of
        Finite m e \<Rightarrow>
          Inr (if 0 \<le> e then m * 2 ^ nat e
               else if 0 \<le> m then m div 2 ^ nat (- e)
               else - ((- m) div 2 ^ nat (- e)))
      | PosInf \<Rightarrow> Inl OverflowError
      | NegInf \<Rightarrow> Inl OverflowError
      | NaN \<Rightarrow> Inl ValueError)"

text \<open>
  \<open>int(v)\<close>. The parse of a string is Python's own (\<open>int_of_str\<close>, \<open>None\<close> where it raises
  \<open>ValueError\<close>); it is a parameter of the model.
\<close>

definition py_int :: "(pystr \<Rightarrow> int option) \<Rightarrow> pyval \<Rightarrow> py_error + int" where
  "py_int int_of_str v =
     (case v of
        PInt i \<Rightarrow> Inr i
      | PBool b \<Rightarrow> Inr (if b then 1 else 0)
      | PFloat f \<Rightarrow> float_to_int f
      | PStr s \<Rightarrow> (case int_of_str s of None \<Rightarrow> Inl ValueError | Some i \<Rightarrow> Inr i)
      | _ \<Rightarrow> Inl TypeError)"

text \<open>Sequencing of steps that may raise: the first exception ends the computation.\<close>

definition and_then :: "'err + 'v \<Rightarrow> ('v \<Rightarrow> 'err + 'w) \<Rightarrow> 'err + 'w" where
  "and_then step continue = (case step of Inl raised \<Rightarrow> Inl raised | Inr v \<Rightarrow> continue v)"

section \<open>The classifier (ai\_processor.py, AIProcessor)\<close>

text \<open>The fallback category (U+884C U+4E1A U+52A8 U+6001) and the marker \<open>AI\<close> U+4E0D U+53EF U+7528.\<close>

definition fallback_category :: pystr where
  "fallback_category = [34892, 19994, 21160, 24577]"

definition unavailable_marker :: pystr where
  "unavailable_marker = [65, 73, 19981, 21487, 29992]"

text \<open>The keys \<open>'category'\<close>, \<open>'summary'\<close>, \<open>'hot_score'\<close>, \<open>'keywords'\<close>, \<open>'reasoning'\<close> of a reply.\<close>

definition k_category :: pystr where
  "k_category = [99, 97, 116, 101, 103, 111, 114, 121]"

definition k_summary :: pystr where
  "k_summary = [115, 117, 109, 109, 97, 114, 121]"

definition k_hot_score :: pystr where
  "k_hot_score = [104, 111, 116, 95, 115, 99, 111, 114, 101]"

definition k_keywords :: pystr where
  "k_keywords = [107, 101, 121, 119, 111, 114, 100, 115]"

definition k_reasoning :: pystr where
  "k_reasoning = [114, 101, 97, 115, 111, 110, 105, 110, 103]"

text \<open>The dict \<open>_analyze_article\<close> and \<open>_get_default_analysis\<close> return: always these five keys.\<close>

record analysis =
  an_category :: pyval
  an_summary :: pyval
  an_hot_score :: int
  an_keywords :: pyval
  an_reasoning :: pyval

text \<open>\<open>_get_default_analysis\<close>: \<open>article['summary']\<close> raises \<open>KeyError\<close> when the key is absent.\<close>

definition get_default_analysis :: "article \<Rightarrow> py_error + analysis" where
  "get_default_analysis article =
     (case summary article of
        None \<Rightarrow> Inl KeyError
      | Some s \<Rightarrow>
          Inr \<lparr> an_category = PStr fallback_category,
                an_summary = s,
                an_hot_score = 50,
                an_keywords =
                  (case tags article of
                     None \<Rightarrow> PList []
                   | Some ts \<Rightarrow> if ts \<noteq> [] then PList (take 3 ts) else PList []),
                an_reasoning = PStr unavailable_marker \<rparr>)"

text \<open>
  The markdown fence markers, three backquotes (code point 96) and three backquotes
  followed by \<open>json\<close>, and the cleaning of lines 89 to 95.
\<close>

definition fence :: pystr where
  "fence = [96, 96, 96]"

definition fence_json :: pystr where
  "fence_json = [96, 96, 96, 106, 115, 111, 110]"

definition clean_code_block :: "pystr \<Rightarrow> pystr" where
  "clean_code_block result_text =
     (let t1 = (if startswith result_text fence_json then drop 7 result_text else result_text);
          t2 = (if startswith t1 fence then drop 3 t1 else t1);
          t3 = (if endswith t2 fence then take (length t2 - 3) t2 else t2)
      in strip t3)"

text \<open>
  The shape of every JSON object text: optional whitespace around a text that opens with
  \<open>{\<close> (code point 123) and closes with \<open>}\<close> (code point 125).
\<close>

definition json_object_text :: "pystr \<Rightarrow> bool" where
  "json_object_text j \<longleftrightarrow> strip j \<noteq> [] \<and> hd (strip j) = 123 \<and> last (strip j) = 125"

text \<open>
  Lines 100 to 106: the analysis built from the parsed reply. The default of the summary,
  \<open>article['summary'][:100]\<close>, is evaluated whether or not the reply has a summary.
\<close>

definition validate_result :: "(pystr \<Rightarrow> int option) \<Rightarrow> article \<Rightarrow> pyval \<Rightarrow> py_error + analysis" where
  "validate_result int_of_str article result =
     and_then (py_get result k_category (PStr fallback_category)) (\<lambda>c.
     and_then (case summary article of None \<Rightarrow> Inl KeyError | Some sm \<Rightarrow> py_slice 100 sm) (\<lambda>sm100.
     and_then (py_get result k_summary sm100) (\<lambda>s.
     and_then (py_get result k_hot_score (PInt 50)) (\<lambda>h.
     and_then (py_int int_of_str h) (\<lambda>i.
     and_then (py_get result k_keywords (PList [])) (\<lambda>kw.
     and_then (py_slice 5 kw) (\<lambda>kw5.
     and_then (py_get result k_reasoning (PStr [])) (\<lambda>r.
       Inr \<lparr> an_category = c, an_summary = s, an_hot_score = min 100 (max 0 i),
             an_keywords = kw5, an_reasoning = r \<rparr>))))))))"

text \<open>
  What lies outside the program: \<open>json.loads\<close>, \<open>int\<close> on a string, and the remote service.
  \<open>remote n\<close> is the outcome of the request sent when \<open>n\<close> requests have been sent before:
  \<open>Inr text\<close> when lines 80 to 84 reach the message content \<open>text\<close> (before \<open>strip\<close>),
  \<open>Inl e\<close> when any of them raises.
\<close>

record env =
  json_loads :: "pystr \<Rightarrow> py_error + pyval"
  int_of_str :: "pystr \<Rightarrow> int option"
  remote :: "nat \<Rightarrow> py_error + pystr"

text \<open>\<open>not self.api_key\<close>: the key is \<open>None\<close> or the empty string.\<close>

definition no_api_key :: "pystr option \<Rightarrow> bool" where
  "no_api_key api_key \<longleftrightarrow> api_key = None \<or> api_key = Some []"

text \<open>
  \<open>_create_analysis_prompt\<close> reads \<open>article['title']\<close>, \<open>article['source']\<close> and
  \<open>article['content'][:2000]\<close>; the result stands for the prompt, whose other text is fixed.
\<close>

definition create_analysis_prompt :: "article \<Rightarrow> py_error + (pystr \<times> pystr \<times> pystr)" where
  "create_analysis_prompt article =
     (case title article of
        None \<Rightarrow> Inl KeyError
      | Some t \<Rightarrow>
          (case source article of
             None \<Rightarrow> Inl KeyError
           | Some s \<Rightarrow>
               (case content article of
                  None \<Rightarrow> Inl KeyError
                | Some c \<Rightarrow> Inr (t, s, take 2000 c))))"

text \<open>
  \<open>_analyze_article\<close>. The second component counts the requests sent. Every exception
  raised inside the \<open>try\<close> is caught and answered by \<open>_get_default_analysis\<close>, which can
  itself raise.
\<close>

definition analyze_article :: "env \<Rightarrow> pystr option \<Rightarrow> article \<Rightarrow> nat \<Rightarrow> (py_error + analysis) \<times> nat" where
  "analyze_article env api_key article n =
     (if no_api_key api_key then (get_default_analysis article, n)
      else
        (case create_analysis_prompt article of
           Inl e \<Rightarrow> (get_default_analysis article, n)
         | Inr prompt \<Rightarrow>
             (case remote env n of
                Inl e \<Rightarrow> (get_default_analysis article, Suc n)
              | Inr text \<Rightarrow>
                  (case json_loads env (clean_code_block (strip text)) of
                     Inl e \<Rightarrow> (get_default_analysis article, Suc n)
                   | Inr result \<Rightarrow>
                       (case validate_result (int_of_str env) article result of
                          Inl e \<Rightarrow> (get_default_analysis article, Suc n)
                        | Inr analysis \<Rightarrow> (Inr analysis, Suc n))))))"

text \<open>
  \<open>article.update(analysis)\<close>. The code updates the dict in place; the articles of a list
  are separate dicts (the fetcher builds one per entry), so the model returns the updated
  article and leaves the others as they are.
\<close>

definition article_update :: "article \<Rightarrow> analysis \<Rightarrow> article" where
  "article_update article an =
     article \<lparr> category := Some (an_category an), summary := Some (an_summary an),
               hot_score := Some (an_hot_score an), key_words := Some (an_keywords an),
               reasoning := Some (an_reasoning an) \<rparr>"

text \<open>
  \<open>process_batch\<close>: the log line reads \<open>article['title'][:50]\<close> before the analysis, outside
  any \<open>try\<close>.
\<close>

fun process_batch_loop ::
    "env \<Rightarrow> pystr option \<Rightarrow> article list \<Rightarrow> article list \<Rightarrow> nat \<Rightarrow> py_error + (article list \<times> nat)" where
  "process_batch_loop env api_key [] processed n = Inr (processed, n)"
| "process_batch_loop env api_key (article # rest) processed n =
     (case title article of
        None \<Rightarrow> Inl KeyError
      | Some t \<Rightarrow>
          (case analyze_article env api_key article n of
             (Inl e, n') \<Rightarrow> Inl e
           | (Inr an, n') \<Rightarrow>
               process_batch_loop env api_key rest (processed @ [article_update article an]) n'))"

definition process_batch :: "env \<Rightarrow> pystr option \<Rightarrow> article list \<Rightarrow> nat \<Rightarrow> py_error + (article list \<times> nat)" where
  "process_batch env api_key articles n = process_batch_loop env api_key articles [] n"

definition batch_size :: nat where
  "batch_size = 5"

text \<open>The loop of \<open>process_all\<close> over \<open>range(0, len(articles), self.batch_size)\<close>.\<close>

function process_all_loop ::
    "env \<Rightarrow> pystr option \<Rightarrow> article list \<Rightarrow> nat \<Rightarrow> article list \<Rightarrow> nat \<Rightarrow> py_error + (article list \<times> nat)" where
  "process_all_loop env api_key articles i all_processed n =
     (if i < length articles then
        (case process_batch env api_key (take batch_size (drop i articles)) n of
           Inl e \<Rightarrow> Inl e
         | Inr (processed, n') \<Rightarrow>
             process_all_loop env api_key articles (i + batch_size) (all_processed @ processed) n')
      else Inr (all_processed, n))"
  by pat_completeness auto
termination process_all_loop
  by (relation "measure (\<lambda>(env, api_key, articles, i, all_processed, n). length articles - i)")
     (auto simp: batch_size_def)

declare process_all_loop.simps [simp del]

text \<open>The loop of \<open>process_all\<close> when no key is configured.\<close>

fun default_loop :: "article list \<Rightarrow> py_error + article list" where
  "default_loop [] = Inr []"
| "default_loop (article # rest) =
     (case get_default_analysis article of
        Inl e \<Rightarrow> Inl e
      | Inr an \<Rightarrow>
          (case default_loop rest of
             Inl e \<Rightarrow> Inl e
           | Inr updated \<Rightarrow> Inr (article_update article an # updated)))"

definition process_all :: "env \<Rightarrow> pystr option \<Rightarrow> article list \<Rightarrow> nat \<Rightarrow> py_error + (article list \<times> nat)" where
  "process_all env api_key articles n =
     (if no_api_key api_key then
        (case default_loop articles of Inl e \<Rightarrow> Inl e | Inr updated \<Rightarrow> Inr (updated, n))
      else process_all_loop env api_key articles 0 [] n)"

text \<open>\<open>a.get('hot_score', 0)\<close>, \<open>filter_by_hot_score\<close> and \<open>sort_by_hot_score\<close> (a stable sort).\<close>

definition score :: "article \<Rightarrow> int" where
  "score a = (case hot_score a of None \<Rightarrow> 0 | Some s \<Rightarrow> s)"

definition filter_by_hot_score :: "article list \<Rightarrow> int \<Rightarrow> article list" where
  "filter_by_hot_score articles threshold = filter (\<lambda>a. score a \<ge> threshold) articles"

definition sort_by_hot_score :: "article list \<Rightarrow> bool \<Rightarrow> article list" where
  "sort_by_hot_score articles reverse =
     (if reverse then sort_key (\<lambda>x. - score x) articles else sort_key score articles)"

section \<open>The report (report\_generator.py, ReportGenerator.generate\_report)\<close>

text \<open>
  The five canonical categories of \<open>category_order\<close>, as code points:
  U+91CD U+5927 U+65B0 U+95FB, U+884C U+4E1A U+52A8 U+6001, U+4EA7 U+54C1 U+53D1 U+5E03,
  U+6280 U+672F U+5E72 U+8D27, U+89C2 U+70B9 U+8BC4 U+8BBA.
\<close>

definition category_order :: "pystr list" where
  "category_order =
     [[37325, 22823, 26032, 38395], [34892, 19994, 21160, 24577], [20135, 21697, 21457, 24067],
      [25216, 26415, 24178, 36135], [35266, 28857, 35780, 35770]]"

text \<open>
  The dict \<open>categories\<close> keeps its keys in insertion order: a list of (key, bucket) pairs.
  A key must be hashable (a list or a dict is not), and two values are the same key when
  Python finds them equal: booleans, integers and finite floats by their number, every
  other value by itself.
\<close>

definition hashable :: "pyval \<Rightarrow> bool" where
  "hashable v = (case v of PList xs \<Rightarrow> False | PDict kvs \<Rightarrow> False | _ \<Rightarrow> True)"

definition float_value :: "int \<Rightarrow> int \<Rightarrow> rat" where
  "float_value m e =
     (if 0 \<le> e then of_int (m * 2 ^ nat e) else of_int m / of_int (2 ^ nat (- e)))"

text \<open>The finite floats: a significand below \<open>2 ^ 53\<close> and an exponent from -1074 to 971.\<close>

definition is_double :: "int \<Rightarrow> int \<Rightarrow> bool" where
  "is_double m e \<longleftrightarrow> \<bar>m\<bar> < 2 ^ 53 \<and> - 1074 \<le> e \<and> e \<le> 971"

definition dict_key :: "pyval \<Rightarrow> rat + pyval" where
  "dict_key v =
     (case v of
        PBool b \<Rightarrow> Inl (if b then 1 else 0)
      | PInt i \<Rightarrow> Inl (of_int i)
      | PFloat f \<Rightarrow> (case f of Finite m e \<Rightarrow> Inl (float_value m e) | _ \<Rightarrow> Inr v)
      | _ \<Rightarrow> Inr v)"

text \<open>\<open>cat in categories\<close>.\<close>

definition dict_has :: "(pyval \<times> 'v) list \<Rightarrow> pyval \<Rightarrow> bool" where
  "dict_has d k \<longleftrightarrow> dict_key k \<in> set (map (\<lambda>kv. dict_key (fst kv)) d)"

text \<open>\<open>categories[cat].append(article)\<close>, for a key the dict has.\<close>

fun dict_append_to :: "(pyval \<times> 'a list) list \<Rightarrow> pyval \<Rightarrow> 'a \<Rightarrow> (pyval \<times> 'a list) list" where
  "dict_append_to [] k x = []"
| "dict_append_to ((k', v) # d) k x =
     (if dict_key k' = dict_key k then (k', v @ [x]) # d else (k', v) # dict_append_to d k x)"

text \<open>\<open>cat = article.get('category', fallback)\<close> and the body of the grouping loop.\<close>

definition cat_of :: "article \<Rightarrow> pyval" where
  "cat_of article = (case category article of None \<Rightarrow> PStr fallback_category | Some c \<Rightarrow> c)"

definition add_article :: "(pyval \<times> article list) list \<Rightarrow> article \<Rightarrow> py_error + (pyval \<times> article list) list" where
  "add_article categories article =
     (let cat = cat_of article in
      if \<not> hashable cat then Inl TypeError
      else Inr (dict_append_to
                  (if \<not> dict_has categories cat then categories @ [(cat, [])] else categories)
                  cat article))"

fun group_loop :: "article list \<Rightarrow> (pyval \<times> article list) list \<Rightarrow> py_error + (pyval \<times> article list) list" where
  "group_loop [] categories = Inr categories"
| "group_loop (article # rest) categories =
     (case add_article categories article of
        Inl e \<Rightarrow> Inl e
      | Inr categories' \<Rightarrow> group_loop rest categories')"

text \<open>
  Lines 344 to 359 of \<open>generate_report\<close>: the dict starts with the canonical categories,
  the articles are added one by one, and every bucket is sorted by descending score.
\<close>

definition build_categories :: "article list \<Rightarrow> py_error + (pyval \<times> article list) list" where
  "build_categories articles =
     (case group_loop articles (map (\<lambda>c. (PStr c, [])) category_order) of
        Inl e \<Rightarrow> Inl e
      | Inr grouped \<Rightarrow>
          Inr (map (\<lambda>(cat, bucket). (cat, sort_key (\<lambda>x. - score x) bucket)) grouped))"

text \<open>
  \<open>a / b\<close> for two integers: the float nearest to the exact quotient, ties to the even
  significand, \<open>OverflowError\<close> when that float would be beyond the largest one and
  \<open>ZeroDivisionError\<close> for a zero divisor. With \<open>n\<close> and \<open>d\<close> the absolute values,
  \<open>quotient_exponent n d\<close> is the \<open>l\<close> with \<open>2 ^ l \<le> n / d < 2 ^ (l + 1)\<close> (\<open>bitlen\<close> is
  \<open>int.bit_length\<close>), \<open>float_exponent n d\<close> the exponent of the last place of a 53 bit
  significand, not below that of the subnormal numbers, and \<open>round_scaled n d e\<close> the integer
  nearest to \<open>n / d / 2 ^ e\<close>. A significand that rounds up to \<open>2 ^ 53\<close> moves to the next
  exponent. \<open>Finite m e\<close> stands for \<open>m * 2 ^ e\<close>; the sign of a zero result is not
  represented.
\<close>

definition round_half_even :: "int \<Rightarrow> int \<Rightarrow> int" where
  "round_half_even num den =
     (let m0 = num div den; r = num mod den
      in if den < 2 * r \<or> (2 * r = den \<and> odd m0) then m0 + 1 else m0)"

definition quotient_exponent :: "int \<Rightarrow> int \<Rightarrow> int" where
  "quotient_exponent n d = (if d \<le> n then bitlen (n div d) - 1 else - bitlen ((d - 1) div n))"

definition float_exponent :: "int \<Rightarrow> int \<Rightarrow> int" where
  "float_exponent n d = max (quotient_exponent n d - 52) (- 1074)"

definition round_scaled :: "int \<Rightarrow> int \<Rightarrow> int \<Rightarrow> int" where
  "round_scaled n d e =
     (if 0 \<le> e then round_half_even n (d * 2 ^ nat e) else round_half_even (n * 2 ^ nat (- e)) d)"

definition true_div :: "int \<Rightarrow> int \<Rightarrow> py_error + pyfloat" where
  "true_div a b =
     (if b = 0 then Inl ZeroDivisionError
      else if a = 0 then Inr (Finite 0 0)
      else
        (let n = \<bar>a\<bar>; d = \<bar>b\<bar>;
             e = float_exponent n d;
             m = round_scaled n d e;
             m1 = (if m = 2 ^ 53 then 2 ^ 52 else m);
             e1 = (if m = 2 ^ 53 then e + 1 else e)
         in if 971 < e1 then Inl OverflowError
            else Inr (Finite (if (a < 0) \<noteq> (b < 0) then - m1 else m1) e1)))"

text \<open>
  Line 363: \<open>sum(a.get('hot_score', 0) for a in articles) / total_articles if articles else 0\<close>,
  the integer 0 for the empty list and a float otherwise.
\<close>

definition average :: "article list \<Rightarrow> py_error + pyval" where
  "average articles =
     (if articles \<noteq> [] then
        (case true_div (sum_list (map score articles)) (int (length articles)) of
           Inl e \<Rightarrow> Inl e
         | Inr f \<Rightarrow> Inr (PFloat f))
      else Inr (PInt 0))"

text \<open>\<open>a.get('source', '')\<close>.\<close>

definition source_name :: "article \<Rightarrow> pystr" where
  "source_name a = (case source a of None \<Rightarrow> [] | Some s \<Rightarrow> s)"

text \<open>
  The values \<open>generate_report\<close> computes and hands to the template, in the order of the
  code: the categories, the total, the average, the number of sources and the number of
  non-empty categories. Rendering and writing the file are not modelled.
\<close>

record report =
  categories :: "(pyval \<times> article list) list"
  total_articles :: nat
  avg_hot_score :: pyval
  total_sources :: nat
  total_categories :: nat

definition generate_report :: "article list \<Rightarrow> py_error + report" where
  "generate_report articles =
     (case build_categories articles of
        Inl e \<Rightarrow> Inl e
      | Inr sorted_categories \<Rightarrow>
          (case average articles of
             Inl e \<Rightarrow> Inl e
           | Inr avg \<Rightarrow>
               Inr \<lparr> categories = sorted_categories,
                     total_articles = length articles,
                     avg_hot_score = avg,
                     total_sources = card (set (map source_name articles)),
                     total_categories =
                       length (filter (\<lambda>(cat, bucket). bucket \<noteq> []) sorted_categories) \<rparr>))"

text \<open>The arithmetic mean, as the specification words it.\<close>

definition arithmetic_mean :: "int list \<Rightarrow> rat" where
  "arithmetic_mean xs = of_int (sum_list xs) / of_nat (length xs)"

section \<open>The fetcher (fetch\_rss.py, RSSFetcher.fetch\_feed and fetch\_all)\<close>

text \<open>A source of the configuration: a dict with the keys below, \<open>None\<close> for an absent key.\<close>

record feed_source =
  src_name :: "pystr option"
  src_url :: "pystr option"
  src_category :: "pystr option"
  src_enabled :: "bool option"
  src_language :: "pystr option"

text \<open>\<open>if article:\<close> holds for a dict with at least one key.\<close>

definition nonempty_dict :: "article \<Rightarrow> bool" where
  "nonempty_dict a \<longleftrightarrow>
     title a \<noteq> None \<or> link a \<noteq> None \<or> content a \<noteq> None \<or> summary a \<noteq> None
     \<or> published a \<noteq> None \<or> source a \<noteq> None \<or> source_category a \<noteq> None
     \<or> language a \<noteq> None \<or> authors a \<noteq> None \<or> tags a \<noteq> None \<or> category a \<noteq> None
     \<or> hot_score a \<noteq> None \<or> key_words a \<noteq> None \<or> reasoning a \<noteq> None"

text \<open>
  The loop over \<open>feed.entries\<close>. \<open>_parse_entry\<close> builds an article from one entry with
  library calls (feedparser, BeautifulSoup, datetime) inside a \<open>try\<close> whose handler catches
  every exception and returns \<open>None\<close>; it is the parameter \<open>parse_entry\<close>, and an entry
  \<open>'e\<close> stands for everything its call reads (the feed entry and the clock).
\<close>

fun entries_loop :: "('e \<Rightarrow> feed_source \<Rightarrow> article option) \<Rightarrow> feed_source \<Rightarrow> 'e list \<Rightarrow> article list \<Rightarrow> article list" where
  "entries_loop parse_entry src [] articles = articles"
| "entries_loop parse_entry src (entry # rest) articles =
     (case parse_entry entry src of
        None \<Rightarrow> entries_loop parse_entry src rest articles
      | Some article \<Rightarrow>
          if nonempty_dict article then entries_loop parse_entry src rest (articles @ [article])
          else entries_loop parse_entry src rest articles)"

text \<open>
  \<open>fetch_feed\<close>. \<open>http_get n url\<close> is the outcome of the request sent when \<open>n\<close> requests
  have been sent before: \<open>Inr entries\<close> when \<open>requests.get\<close>, \<open>raise_for_status\<close> and
  \<open>feedparser.parse\<close> succeed, \<open>Inl e\<close> when one of them raises. \<open>source['url']\<close> and
  \<open>source['name']\<close> are read before the \<open>try\<close>; both handlers only log, and \<open>articles\<close>
  is returned after them.
\<close>

definition fetch_feed ::
    "(nat \<Rightarrow> pystr \<Rightarrow> py_error + 'e list) \<Rightarrow> ('e \<Rightarrow> feed_source \<Rightarrow> article option)
       \<Rightarrow> feed_source \<Rightarrow> nat \<Rightarrow> py_error + (article list \<times> nat)" where
  "fetch_feed http_get parse_entry src n =
     (case src_url src of
        None \<Rightarrow> Inl KeyError
      | Some url \<Rightarrow>
          (case src_name src of
             None \<Rightarrow> Inl KeyError
           | Some feed_name \<Rightarrow>
               (case http_get n url of
                  Inl e \<Rightarrow> Inr ([], Suc n)
                | Inr entries \<Rightarrow> Inr (entries_loop parse_entry src entries [], Suc n))))"

text \<open>The loop of \<open>fetch_all\<close> over \<open>self.sources\<close>; the delay between requests is not modelled.\<close>

fun fetch_all_loop ::
    "(nat \<Rightarrow> pystr \<Rightarrow> py_error + 'e list) \<Rightarrow> ('e \<Rightarrow> feed_source \<Rightarrow> article option)
       \<Rightarrow> feed_source list \<Rightarrow> article list \<Rightarrow> nat \<Rightarrow> py_error + (article list \<times> nat)" where
  "fetch_all_loop http_get parse_entry [] all_articles n = Inr (all_articles, n)"
| "fetch_all_loop http_get parse_entry (src # rest) all_articles n =
     (case fetch_feed http_get parse_entry src n of
        Inl e \<Rightarrow> Inl e
      | Inr (articles, n') \<Rightarrow> fetch_all_loop http_get parse_entry rest (all_articles @ articles) n')"

definition fetch_all ::
    "(nat \<Rightarrow> pystr \<Rightarrow> py_error + 'e list) \<Rightarrow> ('e \<Rightarrow> feed_source \<Rightarrow> article option)
       \<Rightarrow> feed_source list \<Rightarrow> nat \<Rightarrow> py_error + (article list \<times> nat)" where
  "fetch_all http_get parse_entry sources n = fetch_all_loop http_get parse_entry sources [] n"

text \<open>The articles \<open>fetch_feed\<close> returns for one source, as the request numbered \<open>n\<close>.\<close>

definition source_articles ::
    "(nat \<Rightarrow> pystr \<Rightarrow> py_error + 'e list) \<Rightarrow> ('e \<Rightarrow> feed_source \<Rightarrow> article option)
       \<Rightarrow> feed_source \<Rightarrow> nat \<Rightarrow> article list" where
  "source_articles http_get parse_entry src n =
     (case fetch_feed http_get parse_entry src n of Inl e \<Rightarrow> [] | Inr (articles, n') \<Rightarrow> articles)"

section \<open>Notions used in the statements\<close>

text \<open>
  \<open>classified a y\<close>: \<open>y\<close> is the article \<open>a\<close> after \<open>article.update(analysis)\<close> with an analysis
  whose score lies between 0 and 100.
\<close>

definition classified :: "article \<Rightarrow> article \<Rightarrow> bool" where
  "classified a y \<longleftrightarrow>
     (\<exists>an. y = article_update a an \<and> 0 \<le> an_hot_score an \<and> an_hot_score an \<le> 100)"

text \<open>The fields the fetcher wrote are the same in \<open>a\<close> and \<open>y\<close>.\<close>

definition same_fetched_fields :: "article \<Rightarrow> article \<Rightarrow> bool" where
  "same_fetched_fields a y \<longleftrightarrow>
     title y = title a \<and> link y = link a \<and> content y = content a
     \<and> published y = published a \<and> source y = source a
     \<and> source_category y = source_category a \<and> language y = language a
     \<and> authors y = authors a \<and> tags y = tags a"

text \<open>\<open>y\<close> carries the default analysis of \<open>a\<close>, as the specification words it.\<close>

definition default_analysed :: "article \<Rightarrow> article \<Rightarrow> bool" where
  "default_analysed a y \<longleftrightarrow>
     category y = Some (PStr fallback_category)
     \<and> hot_score y = Some 50
     \<and> reasoning y = Some (PStr unavailable_marker)
     \<and> summary y = summary a
     \<and> key_words y = Some (PList (take 3 (case tags a of None \<Rightarrow> [] | Some ts \<Rightarrow> ts)))"

text \<open>
  The keys of the report's buckets: the five canonical categories, then the categories of
  the articles that are not among them, each where it first occurs.
\<close>

definition bucket_keys :: "article list \<Rightarrow> pyval list" where
  "bucket_keys articles =
     map PStr category_order
     @ unseen dict_key (set (map (\<lambda>c. dict_key (PStr c)) category_order)) (map cat_of articles)"

text \<open>
  Sample articles used to run the definitions on concrete inputs; \<open>art_long\<close> is \<open>art1\<close>
  with a summary of 101 characters.
\<close>

definition blank :: article where
  "blank = \<lparr> title = None, link = None, content = None, summary = None, published = None,
             source = None, source_category = None, language = None, authors = None,
             tags = None, category = None, hot_score = None, key_words = None,
             reasoning = None \<rparr>"

definition art1 :: article where
  "art1 = blank \<lparr> title := Some [71, 80, 84], link := Some [104, 116, 116, 112],
                   content := Some [110, 101, 119, 115], summary := Some (PStr [110, 101, 119]),
                   source := Some [83, 49], tags := Some [PStr [65, 73], PStr [76, 76, 77]] \<rparr>"

definition art_long :: article where
  "art_long = art1 \<lparr> summary := Some (PStr (replicate 101 120)) \<rparr>"

definition art2 :: article where
  "art2 = blank \<lparr> title := Some [82, 83, 83], link := Some [104, 116, 116, 112],
                   content := Some [102, 101, 101, 100], summary := Some (PStr [102, 101]),
                   source := Some [83, 50] \<rparr>"

text \<open>
  A sample environment: \<open>int\<close> reads the string \<open>85\<close>, \<open>json.loads\<close> reads \<open>{}\<close> and
  \<open>{"hot_score": 150}\<close>, and the service answers the first request with the second text
  inside a fence, the second with \<open>abc\<close>, the third with \<open>{}\<close>, and fails afterwards.
\<close>

definition sample_int_of_str :: "pystr \<Rightarrow> int option" where
  "sample_int_of_str s = (if s = [56, 53] then Some 85 else None)"

definition reply_150 :: pystr where
  "reply_150 = [123, 34, 104, 111, 116, 95, 115, 99, 111, 114, 101, 34, 58, 32, 49, 53, 48, 125]"

definition sample_loads :: "pystr \<Rightarrow> py_error + pyval" where
  "sample_loads s =
     (if s = [123, 125] then Inr (PDict [])
      else if s = reply_150 then Inr (PDict [(k_hot_score, PInt 150)])
      else Inl JSONDecodeError)"

definition sample_remote :: "nat \<Rightarrow> py_error + pystr" where
  "sample_remote n =
     (if n = 0 then Inr ([10] @ fence_json @ [10] @ reply_150 @ [10] @ fence @ [10])
      else if n = 1 then Inr [97, 98, 99]
      else if n = 2 then Inr [123, 125]
      else Inl RequestException)"

definition sample_env :: env where
  "sample_env = \<lparr> json_loads = sample_loads, int_of_str = sample_int_of_str,
                  remote = sample_remote \<rparr>"

definition bare_env :: env where
  "bare_env = \<lparr> json_loads = sample_loads, int_of_str = sample_int_of_str,
                remote = (\<lambda>n. Inr reply_150) \<rparr>"

definition sample_key :: "pystr option" where
  "sample_key = Some [115, 107]"

text \<open>Three scored articles: scores 50, 90 and 50, the second without a category.\<close>

definition scored1 :: article where
  "scored1 = art1 \<lparr> category := Some (PStr [78, 69, 87]), hot_score := Some 50 \<rparr>"

definition scored2 :: article where
  "scored2 = art2 \<lparr> hot_score := Some 90 \<rparr>"

definition scored3 :: article where
  "scored3 = art2 \<lparr> category := Some (PStr [78, 69, 87]), hot_score := Some 50 \<rparr>"

text \<open>
  A service whose reply is \<open>{"category": ["X"]}\<close>, read by \<open>json.loads\<close> as a dict with a list
  for the category; the article \<open>art1\<close> after the update with the analysis of that reply;
  and an article whose score is \<open>2 ^ 1024\<close>.
\<close>

definition reply_list :: pystr where
  "reply_list =
     [123, 34, 99, 97, 116, 101, 103, 111, 114, 121, 34, 58, 32, 91, 34, 88, 34, 93, 125]"

definition list_loads :: "pystr \<Rightarrow> py_error + pyval" where
  "list_loads s =
     (if s = reply_list then Inr (PDict [(k_category, PList [PStr [88]])])
      else Inl JSONDecodeError)"

definition list_env :: env where
  "list_env = \<lparr> json_loads = list_loads, int_of_str = sample_int_of_str,
                remote = (\<lambda>n. Inr reply_list) \<rparr>"

definition listed1 :: article where
  "listed1 = article_update art1
     \<lparr> an_category = PList [PStr [88]], an_summary = PStr [110, 101, 119],
       an_hot_score = 50, an_keywords = PList [], an_reasoning = PStr [] \<rparr>"

definition huge :: article where
  "huge = blank \<lparr> hot_score := Some (2 ^ 1024) \<rparr>"

text \<open>
  Two sources and a sample network: the first request fails, the second returns three
  entries, of which the entry 0 cannot be parsed.
\<close>

definition source1 :: feed_source where
  "source1 = \<lparr> src_name = Some [83, 49], src_url = Some [117, 49], src_category = None,
               src_enabled = Some True, src_language = None \<rparr>"

definition source2 :: feed_source where
  "source2 = \<lparr> src_name = Some [83, 50], src_url = Some [117, 50], src_category = None,
               src_enabled = Some True, src_language = None \<rparr>"

definition sample_http :: "nat \<Rightarrow> pystr \<Rightarrow> py_error + nat list" where
  "sample_http n url = (if n = 0 then Inl RequestException else Inr [1, 0, 2])"

definition sample_parse :: "nat \<Rightarrow> feed_source \<Rightarrow> article option" where
  "sample_parse e src = (if e = 0 then None else if e = 1 then Some art1 else Some art2)"

section \<open>Properties of deduplication\<close>

lemma unseen_length: "length (unseen k S xs) \<le> length xs"
  by (induction xs arbitrary: S) (auto intro: le_SucI)

lemma unseen_keys: "k ` set (unseen k S xs) = k ` set xs - S"
  by (induction xs arbitrary: S) auto

lemma unseen_distinct: "distinct (map k (unseen k S xs))"
proof (induction xs arbitrary: S)
  case Nil
  show ?case by simp
next
  case (Cons x xs)
  have "k x \<notin> k ` set (unseen k (insert (k x) S) xs)"
    by (simp add: unseen_keys)
  with Cons show ?case by simp
qed

lemma unseen_enumerate:
  "unseen k S xs =
     map snd (filter (\<lambda>(i, x). k x \<notin> S \<union> k ` set (take i xs)) (enumerate 0 xs))"
proof (induction xs arbitrary: S)
  case Nil
  show ?case by simp
next
  case (Cons x xs)
  have shift: "filter (\<lambda>(i, y). k y \<notin> S \<union> k ` set (take i (x # xs))) (enumerate (Suc 0) xs)
      = map (apfst Suc) (filter (\<lambda>(i, y). k y \<notin> insert (k x) S \<union> k ` set (take i xs)) (enumerate 0 xs))"
    unfolding enumerate_Suc_eq filter_map
    by (rule arg_cong [where f = "map (apfst Suc)"], rule filter_cong) auto
  have tail: "map snd (filter (\<lambda>(i, y). k y \<notin> S \<union> k ` set (take i (x # xs))) (enumerate (Suc 0) xs))
      = unseen k (insert (k x) S) xs"
    unfolding shift Cons.IH [of "insert (k x) S"] by (simp add: o_def)
  show ?case
  proof (cases "k x \<in> S")
    case True
    then have "insert (k x) S = S" by auto
    with True tail show ?thesis by simp
  next
    case False
    with tail show ?thesis by simp
  qed
qed

lemma dedup_loop_unseen:
  assumes "\<forall>a\<in>set xs. has_identity a"
  shows "dedup_loop xs seen acc =
           Inr (acc @ unseen identity ((\<lambda>(t, l). (Some t, Some l)) ` seen) xs)"
  using assms
proof (induction xs arbitrary: seen acc)
  case Nil
  show ?case by simp
next
  case (Cons a xs)
  from Cons.prems obtain t l where tl: "title a = Some t" "link a = Some l"
    by (auto simp: has_identity_def)
  have key: "article_key a = Inr (t, l)" by (simp add: article_key_def tl)
  have idn: "identity a = (Some t, Some l)" by (simp add: identity_def tl)
  have mem: "(Some t, Some l) \<in> (\<lambda>(t, l). (Some t, Some l)) ` seen \<longleftrightarrow> (t, l) \<in> seen"
    by force
  have ins: "(\<lambda>(t, l). (Some t, Some l)) ` insert (t, l) seen
      = insert (Some t, Some l) ((\<lambda>(t, l). (Some t, Some l)) ` seen)"
    by simp
  from Cons.prems have rest: "\<forall>a\<in>set xs. has_identity a" by simp
  show ?case
    by (simp add: key mem Cons.IH [OF rest] ins idn)
qed

text \<open>
  Claim C1. For every list of articles that carry a title and a link, \<open>deduplicate\<close> returns
  a list in which no two elements share the same (title, link) pair, whose length is at
  most the input's, and which is exactly the list of first occurrences of each
  (title, link) pair, in their original order.
\<close>

theorem deduplicate_first_occurrences:
  assumes "\<forall>a\<in>set xs. has_identity a"
  shows "\<exists>ys. deduplicate xs = Inr ys
            \<and> distinct (map identity ys)
            \<and> length ys \<le> length xs
            \<and> ys = first_occurrences xs
            \<and> subseq ys xs
            \<and> identity ` set ys = identity ` set xs"
proof -
  have run: "deduplicate xs = Inr (unseen identity {} xs)"
    using dedup_loop_unseen [OF assms, of "{}" "[]"] by (simp add: deduplicate_def)
  have spec: "unseen identity {} xs = first_occurrences xs"
    by (simp add: unseen_enumerate [of identity "{}" xs] first_occurrences_def)
  have sub: "subseq (first_occurrences xs) xs"
  proof -
    have "subseq (map snd (filter (\<lambda>(i, x). identity x \<notin> identity ` set (take i xs)) (enumerate 0 xs)))
            (map snd (enumerate 0 xs))"
      by (intro subseq_map subseq_filter_left)
    then show ?thesis by (simp add: first_occurrences_def)
  qed
  show ?thesis
    using unseen_distinct [of identity "{}" xs] unseen_length [of identity "{}" xs]
      unseen_keys [of identity "{}" xs] sub
    by (simp add: run spec)
qed

theorem deduplicate_first_occurrences_witness:
  "deduplicate [art1, art2, art1] = Inr [art1, art2]
   \<and> distinct (map identity [art1, art2])
   \<and> first_occurrences [art1, art2, art1] = [art1, art2]"
proof -
  have wf: "\<forall>a\<in>set [art1, art2, art1]. has_identity a"
    by (simp add: has_identity_def art1_def art2_def blank_def)
  have fo: "first_occurrences [art1, art2, art1] = [art1, art2]"
    by (simp add: first_occurrences_def enumerate_eq_zip upt_rec identity_def art1_def art2_def blank_def)
  from deduplicate_first_occurrences [OF wf] fo show ?thesis
    by auto
qed

section \<open>Properties of the fence cleaning\<close>

lemma dropWhile_all: "list_all P w \<Longrightarrow> dropWhile P (w @ x) = dropWhile P x"
  by (induction w) auto

lemma dropWhile_hd: "x \<noteq> [] \<Longrightarrow> \<not> P (hd x) \<Longrightarrow> dropWhile P x = x"
  by (cases x) auto

lemma strip_core:
  assumes "x \<noteq> []" and "\<not> py_isspace (hd x)" and "\<not> py_isspace (last x)"
    and "list_all py_isspace a" and "list_all py_isspace b"
  shows "strip (a @ x @ b) = x"
proof -
  have front: "dropWhile py_isspace (a @ x @ b) = x @ b"
    using assms by (simp add: dropWhile_all dropWhile_hd)
  have rb: "list_all py_isspace (rev b)"
    using assms(5) by (simp add: list_all_iff)
  have "dropWhile py_isspace (rev b @ rev x) = rev x"
    using assms(1,3) rb by (simp add: dropWhile_all dropWhile_hd hd_rev)
  then show ?thesis
    by (simp add: strip_def front)
qed

lemma strip_decompose:
  "\<exists>a b. j = a @ strip j @ b \<and> list_all py_isspace a \<and> list_all py_isspace b"
proof -
  define d where "d = dropWhile py_isspace j"
  have j: "j = takeWhile py_isspace j @ d"
    by (simp add: d_def)
  have "rev (rev d) = rev (takeWhile py_isspace (rev d) @ dropWhile py_isspace (rev d))"
    by (simp only: takeWhile_dropWhile_id)
  then have d: "d = strip j @ rev (takeWhile py_isspace (rev d))"
    by (simp only: rev_rev_ident rev_append strip_def d_def)
  have a: "list_all py_isspace (takeWhile py_isspace j)"
    by (auto simp: list_all_iff dest: set_takeWhileD)
  have b: "list_all py_isspace (rev (takeWhile py_isspace (rev d)))"
    by (auto simp: list_all_iff dest: set_takeWhileD)
  from j d have "j = takeWhile py_isspace j @ strip j @ rev (takeWhile py_isspace (rev d))"
    by simp
  with a b show ?thesis by blast
qed

lemma space_not_brace: "py_isspace c \<Longrightarrow> c \<noteq> 96 \<and> c \<noteq> 106 \<and> c \<noteq> 123 \<and> c \<noteq> 125"
  by (auto simp: py_isspace_def)

lemma object_text_hd:
  assumes "j = a @ c @ b" and "c \<noteq> []" and "hd c = 123" and "list_all py_isspace a"
  shows "hd (j @ t) \<noteq> 96 \<and> hd (j @ t) \<noteq> 106"
proof (cases a)
  case Nil
  with assms show ?thesis by (cases c) auto
next
  case (Cons x xs)
  with assms have "py_isspace x" by simp
  with Cons assms(1) show ?thesis by (auto dest: space_not_brace)
qed

lemma not_startswith_hd: "s \<noteq> [] \<Longrightarrow> p \<noteq> [] \<Longrightarrow> hd s \<noteq> hd p \<Longrightarrow> \<not> startswith s p"
  by (cases s; cases p) (auto simp: startswith_def)

lemma not_endswith_last: "s \<noteq> [] \<Longrightarrow> p \<noteq> [] \<Longrightarrow> last s \<noteq> last p \<Longrightarrow> \<not> endswith s p"
proof
  assume s: "s \<noteq> []" and p: "p \<noteq> []" and ne: "last s \<noteq> last p" and e: "endswith s p"
  from e have le: "length p \<le> length s" and d: "drop (length s - length p) s = p"
    by (auto simp: endswith_def)
  from p le have "length s - length p < length s"
    by (cases p) auto
  then have "last (drop (length s - length p) s) = last s"
    by (simp add: last_drop)
  with d ne show False by simp
qed

lemma not_startswith_fence_json: "hd xs \<noteq> 106 \<Longrightarrow> \<not> startswith (fence @ xs) fence_json"
  by (cases xs) (auto simp: startswith_def fence_def fence_json_def)

lemma endswith_append: "endswith (s @ p) p"
  by (simp add: endswith_def)

lemma startswith_append: "startswith (p @ s) p"
  by (simp add: startswith_def)

lemma clean_code_block_steps:
  assumes "t1 = (if startswith t fence_json then drop 7 t else t)"
    and "t2 = (if startswith t1 fence then drop 3 t1 else t1)"
    and "t3 = (if endswith t2 fence then take (length t2 - 3) t2 else t2)"
  shows "clean_code_block t = strip t3"
  using assms by (simp add: clean_code_block_def Let_def)

lemma clean_bare:
  assumes "json_object_text j"
  shows "clean_code_block (strip j) = strip j"
proof -
  let ?c = "strip j"
  from assms have c: "?c \<noteq> []" "hd ?c = 123" "last ?c = 125"
    by (simp_all add: json_object_text_def)
  have n1: "\<not> startswith ?c fence_json"
    using c by (intro not_startswith_hd) (simp_all add: fence_json_def)
  have n2: "\<not> startswith ?c fence"
    using c by (intro not_startswith_hd) (simp_all add: fence_def)
  have n3: "\<not> endswith ?c fence"
    using c by (intro not_endswith_last) (simp_all add: fence_def)
  have "strip ([] @ ?c @ []) = ?c"
    using c by (intro strip_core) (simp_all add: py_isspace_def)
  then show ?thesis
    by (simp add: clean_code_block_def n1 n2 n3)
qed

lemma clean_fenced:
  assumes obj: "json_object_text j" and w1: "list_all py_isspace w1" and w2: "list_all py_isspace w2"
    and pre: "pre = fence \<or> pre = fence_json"
  shows "clean_code_block (strip (w1 @ pre @ j @ fence @ w2)) = strip j"
proof -
  let ?c = "strip j"
  from obj have c: "?c \<noteq> []" "hd ?c = 123" "last ?c = 125"
    by (simp_all add: json_object_text_def)
  obtain a b where j: "j = a @ ?c @ b" and a: "list_all py_isspace a" and b: "list_all py_isspace b"
    using strip_decompose [of j] by blast
  have jne: "j \<noteq> []" using c(1) j by auto
  have hdj: "hd (j @ fence) \<noteq> 96 \<and> hd (j @ fence) \<noteq> 106"
    by (rule object_text_hd [OF j c(1) c(2) a])
  have outer: "strip (w1 @ (pre @ j @ fence) @ w2) = pre @ j @ fence"
    using pre w1 w2
    by (intro strip_core) (auto simp: fence_def fence_json_def py_isspace_def)
  have tail: "\<not> startswith (j @ fence) fence"
    using hdj jne by (intro not_startswith_hd) (simp_all add: fence_def)
  have cut: "take (length (j @ fence) - 3) (j @ fence) = j"
    by (simp add: fence_def)
  have e: "endswith (j @ fence) fence"
    by (rule endswith_append)
  have t3: "(if endswith (j @ fence) fence then take (length (j @ fence) - 3) (j @ fence)
             else j @ fence) = j"
    by (simp only: e cut if_True)
  have t2: "(if startswith (j @ fence) fence then drop 3 (j @ fence) else j @ fence) = j @ fence"
    by (simp only: tail if_False)
  have inner: "clean_code_block (pre @ j @ fence) = strip j"
  proof -
    from pre show ?thesis
    proof
      assume p: "pre = fence"
      have n1: "\<not> startswith (fence @ j @ fence) fence_json"
        using hdj by (intro not_startswith_fence_json) simp
      have d3: "drop 3 (fence @ j @ fence) = j @ fence"
        by (simp add: fence_def)
      have t1: "(if startswith (fence @ j @ fence) fence_json then drop 7 (fence @ j @ fence)
                 else fence @ j @ fence) = fence @ j @ fence"
        by (simp only: n1 if_False)
      have s: "startswith (fence @ j @ fence) fence"
        by (rule startswith_append)
      have t2': "(if startswith (fence @ j @ fence) fence then drop 3 (fence @ j @ fence)
                  else fence @ j @ fence) = j @ fence"
        by (simp only: s d3 if_True)
      show ?thesis
        unfolding p by (rule clean_code_block_steps [OF t1 [symmetric] t2' [symmetric] t3 [symmetric]])
    next
      assume p: "pre = fence_json"
      have d7: "drop 7 (fence_json @ j @ fence) = j @ fence"
        by (simp add: fence_json_def)
      have s: "startswith (fence_json @ j @ fence) fence_json"
        by (rule startswith_append)
      have t1: "(if startswith (fence_json @ j @ fence) fence_json
                 then drop 7 (fence_json @ j @ fence) else fence_json @ j @ fence) = j @ fence"
        by (simp only: s d7 if_True)
      show ?thesis
        unfolding p by (rule clean_code_block_steps [OF t1 [symmetric] t2 [symmetric] t3 [symmetric]])
    qed
  qed
  from outer inner show ?thesis by simp
qed

section \<open>Properties of the classifier\<close>

lemma default_analysis_score: "get_default_analysis a = Inr an \<Longrightarrow> an_hot_score an = 50"
  by (auto simp: get_default_analysis_def split: option.splits)

lemma validate_result_range:
  "validate_result f a r = Inr an \<Longrightarrow> 0 \<le> an_hot_score an \<and> an_hot_score an \<le> 100"
  by (auto simp: validate_result_def and_then_def split: sum.splits)

lemma validate_result_missing_score:
  assumes "validate_result f a (PDict kvs) = Inr an" and "map_of kvs k_hot_score = None"
  shows "an_hot_score an = 50"
  using assms
  by (auto simp: validate_result_def and_then_def py_get_def py_int_def split: sum.splits)

lemma analyze_article_cases:
  assumes "analyze_article env k a n = (Inr an, m)"
  shows "get_default_analysis a = Inr an
       \<or> (\<exists>text result. remote env n = Inr text
             \<and> json_loads env (clean_code_block (strip text)) = Inr result
             \<and> validate_result (int_of_str env) a result = Inr an)"
  using assms
  by (auto simp: analyze_article_def split: if_splits sum.splits)

lemma analyze_article_range:
  assumes "analyze_article env k a n = (Inr an, m)"
  shows "0 \<le> an_hot_score an \<and> an_hot_score an \<le> 100"
  using analyze_article_cases [OF assms]
  by (auto dest: default_analysis_score validate_result_range)

lemma analyze_article_total:
  assumes "summary a \<noteq> None"
  shows "\<exists>an m. analyze_article env k a n = (Inr an, m)"
proof -
  from assms obtain d where d: "get_default_analysis a = Inr d"
    by (auto simp: get_default_analysis_def)
  show ?thesis
    by (auto simp: analyze_article_def d split: sum.splits)
qed

lemma batch_loop_classified:
  "process_batch_loop env k xs acc n = Inr (zs, n')
     \<Longrightarrow> \<exists>ys. zs = acc @ ys \<and> list_all2 classified xs ys"
proof (induction xs arbitrary: acc n)
  case Nil
  then show ?case by simp
next
  case (Cons a xs)
  from Cons.prems obtain an m where
    an: "analyze_article env k a n = (Inr an, m)" and
    rest: "process_batch_loop env k xs (acc @ [article_update a an]) m = Inr (zs, n')"
    by (auto split: option.splits sum.splits prod.splits)
  from Cons.IH [OF rest] obtain ys where
    ys: "zs = (acc @ [article_update a an]) @ ys" "list_all2 classified xs ys"
    by blast
  have "classified a (article_update a an)"
    using analyze_article_range [OF an] by (auto simp: classified_def)
  with ys show ?case by auto
qed

lemma batch_loop_total:
  assumes "\<forall>a\<in>set xs. title a \<noteq> None \<and> summary a \<noteq> None"
  shows "\<exists>zs n'. process_batch_loop env k xs acc n = Inr (zs, n')"
  using assms
proof (induction xs arbitrary: acc n)
  case Nil
  show ?case by simp
next
  case (Cons a xs)
  from Cons.prems obtain t where t: "title a = Some t" by auto
  from Cons.prems have "summary a \<noteq> None" by simp
  from analyze_article_total [OF this] obtain an m where
    an: "analyze_article env k a n = (Inr an, m)" by blast
  from Cons.prems have "\<forall>a\<in>set xs. title a \<noteq> None \<and> summary a \<noteq> None" by simp
  from Cons.IH [OF this] show ?case by (simp add: t an)
qed

lemma all_loop_classified:
  "process_all_loop env k xs i acc n = Inr (zs, n')
     \<Longrightarrow> list_all2 classified (take i xs) acc
     \<Longrightarrow> list_all2 classified xs zs"
proof (induction env k xs i acc n rule: process_all_loop.induct)
  case (1 env k xs i acc n)
  show ?case
  proof (cases "i < length xs")
    case False
    with "1.prems" show ?thesis
      by (simp add: process_all_loop.simps [of env k xs i acc n])
  next
    case True
    with "1.prems"(1) obtain ps m where
      b: "process_batch env k (take batch_size (drop i xs)) n = Inr (ps, m)" and
      r: "process_all_loop env k xs (i + batch_size) (acc @ ps) m = Inr (zs, n')"
      by (auto simp: process_all_loop.simps [of env k xs i acc n] split: sum.splits)
    from b have "list_all2 classified (take batch_size (drop i xs)) ps"
      using batch_loop_classified [of env k "take batch_size (drop i xs)" "[]" n ps m]
      by (simp add: process_batch_def)
    with "1.prems"(2) have "list_all2 classified (take (i + batch_size) xs) (acc @ ps)"
      by (simp add: take_add list_all2_appendI)
    from "1.IH" [OF True b refl r this] show ?thesis .
  qed
qed

lemma all_loop_total:
  assumes "\<forall>a\<in>set xs. title a \<noteq> None \<and> summary a \<noteq> None"
  shows "\<exists>zs n'. process_all_loop env k xs i acc n = Inr (zs, n')"
  using assms
proof (induction env k xs i acc n rule: process_all_loop.induct)
  case (1 env k xs i acc n)
  show ?case
  proof (cases "i < length xs")
    case False
    then show ?thesis
      by (simp add: process_all_loop.simps [of env k xs i acc n])
  next
    case True
    have "\<forall>a\<in>set (take batch_size (drop i xs)). title a \<noteq> None \<and> summary a \<noteq> None"
      using "1.prems" by (auto dest!: in_set_takeD in_set_dropD)
    from batch_loop_total [OF this] obtain ps m where
      b: "process_batch env k (take batch_size (drop i xs)) n = Inr (ps, m)"
      unfolding process_batch_def by blast
    from "1.IH" [OF True b refl "1.prems"] show ?thesis
      by (simp add: process_all_loop.simps [of env k xs i acc n] True b)
  qed
qed

lemma default_loop_classified:
  "default_loop xs = Inr ys \<Longrightarrow> list_all2 classified xs ys"
proof (induction xs arbitrary: ys)
  case Nil
  then show ?case by simp
next
  case (Cons a xs)
  from Cons.prems obtain an others where
    an: "get_default_analysis a = Inr an" and d: "default_loop xs = Inr others"
    and ys: "ys = article_update a an # others"
    by (auto split: sum.splits)
  have "classified a (article_update a an)"
    using default_analysis_score [OF an] by (auto simp: classified_def)
  with Cons.IH [OF d] ys show ?case by simp
qed

lemma default_loop_analysed:
  assumes "\<forall>a\<in>set xs. summary a \<noteq> None"
  shows "\<exists>ys. default_loop xs = Inr ys \<and> list_all2 default_analysed xs ys
            \<and> list_all2 same_fetched_fields xs ys"
  using assms
proof (induction xs)
  case Nil
  show ?case by simp
next
  case (Cons a xs)
  from Cons.prems obtain s where s: "summary a = Some s" by auto
  from Cons.prems have "\<forall>a\<in>set xs. summary a \<noteq> None" by simp
  from Cons.IH [OF this] obtain ys where
    ys: "default_loop xs = Inr ys" "list_all2 default_analysed xs ys"
      "list_all2 same_fetched_fields xs ys"
    by blast
  obtain an where an: "get_default_analysis a = Inr an"
    by (simp add: get_default_analysis_def s)
  have "default_analysed a (article_update a an)"
    using an
    by (auto simp: default_analysed_def article_update_def get_default_analysis_def s
        split: option.splits)
  moreover have "same_fetched_fields a (article_update a an)"
    by (simp add: same_fetched_fields_def article_update_def)
  ultimately show ?case using ys an by simp
qed

lemma process_all_classified:
  assumes "process_all env k xs n = Inr (ys, n')"
  shows "list_all2 classified xs ys"
proof (cases "no_api_key k")
  case True
  with assms show ?thesis
    by (auto simp: process_all_def split: sum.splits dest: default_loop_classified)
next
  case False
  with assms have "process_all_loop env k xs 0 [] n = Inr (ys, n')"
    by (simp add: process_all_def)
  from all_loop_classified [OF this] show ?thesis by simp
qed

lemma classified_score:
  "classified a y \<Longrightarrow> \<exists>s. hot_score y = Some s \<and> 0 \<le> s \<and> s \<le> 100"
  by (auto simp: classified_def article_update_def)

lemma classified_frame: "classified a y \<Longrightarrow> same_fetched_fields a y"
  by (auto simp: classified_def article_update_def same_fetched_fields_def)

section \<open>The sample runs\<close>

lemma strip_reply_150: "strip reply_150 = reply_150"
  by (simp add: strip_def py_isspace_def reply_150_def)

lemma object_reply_150: "json_object_text reply_150"
  by (simp add: json_object_text_def strip_reply_150) (simp add: reply_150_def)

lemma loads_reply_150:
  "sample_loads (clean_code_block (strip reply_150)) = Inr (PDict [(k_hot_score, PInt 150)])"
proof -
  have "clean_code_block (strip reply_150) = reply_150"
    using clean_bare [OF object_reply_150] by (simp only: strip_reply_150)
  then show ?thesis
    by (simp add: sample_loads_def) (simp add: reply_150_def)
qed

lemma strip_abc: "clean_code_block (strip [97, 98, 99]) = [97, 98, 99]"
  by (simp add: clean_code_block_def strip_def py_isspace_def startswith_def endswith_def
      fence_def fence_json_def)

lemma strip_braces: "clean_code_block (strip [123, 125]) = [123, 125]"
  by (simp add: clean_code_block_def strip_def py_isspace_def startswith_def endswith_def
      fence_def fence_json_def)

lemma prompt_art1: "create_analysis_prompt art1 = Inr ([71, 80, 84], [83, 49], [110, 101, 119, 115])"
  by (simp add: create_analysis_prompt_def art1_def blank_def)

lemma prompt_art2: "create_analysis_prompt art2 = Inr ([82, 83, 83], [83, 50], [102, 101, 101, 100])"
  by (simp add: create_analysis_prompt_def art2_def blank_def)

lemma validate_art1_150:
  "validate_result sample_int_of_str art1 (PDict [(k_hot_score, PInt 150)])
     = Inr \<lparr> an_category = PStr fallback_category, an_summary = PStr [110, 101, 119],
             an_hot_score = 100, an_keywords = PList [], an_reasoning = PStr [] \<rparr>"
  by (simp add: validate_result_def and_then_def py_get_def py_slice_def py_int_def
      k_category_def k_summary_def k_hot_score_def k_keywords_def k_reasoning_def
      art1_def blank_def)

lemma validate_art1_empty:
  "validate_result sample_int_of_str art1 (PDict [])
     = Inr \<lparr> an_category = PStr fallback_category, an_summary = PStr [110, 101, 119],
             an_hot_score = 50, an_keywords = PList [], an_reasoning = PStr [] \<rparr>"
  by (simp add: validate_result_def and_then_def py_get_def py_slice_def py_int_def
      art1_def blank_def)

lemma default_art2:
  "get_default_analysis art2
     = Inr \<lparr> an_category = PStr fallback_category, an_summary = PStr [102, 101],
             an_hot_score = 50, an_keywords = PList [],
             an_reasoning = PStr unavailable_marker \<rparr>"
  by (simp add: get_default_analysis_def art2_def blank_def)

lemma key_set: "\<not> no_api_key sample_key"
  by (simp add: no_api_key_def sample_key_def)

lemma analyze_bare_art1:
  "analyze_article bare_env sample_key art1 0
     = (Inr \<lparr> an_category = PStr fallback_category, an_summary = PStr [110, 101, 119],
              an_hot_score = 100, an_keywords = PList [], an_reasoning = PStr [] \<rparr>, Suc 0)"
  by (simp add: analyze_article_def key_set prompt_art1 bare_env_def loads_reply_150
      validate_art1_150)

lemma analyze_sample_art2:
  "analyze_article sample_env sample_key art2 1
     = (Inr \<lparr> an_category = PStr fallback_category, an_summary = PStr [102, 101],
              an_hot_score = 50, an_keywords = PList [],
              an_reasoning = PStr unavailable_marker \<rparr>, 2)"
  by (simp add: analyze_article_def key_set prompt_art2 sample_env_def sample_remote_def
      strip_abc sample_loads_def default_art2)
     (simp add: reply_150_def)

lemma analyze_sample_art1:
  "analyze_article sample_env sample_key art1 2
     = (Inr \<lparr> an_category = PStr fallback_category, an_summary = PStr [110, 101, 119],
              an_hot_score = 50, an_keywords = PList [], an_reasoning = PStr [] \<rparr>, 3)"
  by (simp add: analyze_article_def key_set prompt_art1 sample_env_def sample_remote_def
      strip_braces sample_loads_def validate_art1_empty)

lemma title_art1: "title art1 = Some [71, 80, 84]"
  by (simp add: art1_def blank_def)

lemma process_all_bare_art1:
  "process_all bare_env sample_key [art1] 0
     = Inr ([article_update art1
               \<lparr> an_category = PStr fallback_category, an_summary = PStr [110, 101, 119],
                 an_hot_score = 100, an_keywords = PList [], an_reasoning = PStr [] \<rparr>], Suc 0)"
  by (simp add: process_all_def key_set process_all_loop.simps process_batch_def batch_size_def
      title_art1 analyze_bare_art1)

section \<open>The claims about the classifier\<close>

text \<open>
  Claim C2. Whatever the remote service returns, the \<open>hot_score\<close> stored on every article
  that \<open>process_all\<close> returns is an integer between 0 and 100; and for one article, the
  stored score is the clamped score of the analysis, which is 50 when the parsed reply has
  no \<open>hot_score\<close> and when the reply cannot be parsed.
\<close>

theorem stored_hot_score_in_range:
  "(process_all env api_key articles n = Inr (ys, n') \<longrightarrow>
      (\<forall>y\<in>set ys. \<exists>s. hot_score y = Some s \<and> 0 \<le> s \<and> s \<le> 100))
   \<and> (analyze_article env api_key a m = (Inr an, m') \<longrightarrow>
        hot_score (article_update a an) = Some (an_hot_score an)
        \<and> 0 \<le> an_hot_score an \<and> an_hot_score an \<le> 100
        \<and> (\<forall>text kvs. remote env m = Inr text
              \<and> json_loads env (clean_code_block (strip text)) = Inr (PDict kvs)
              \<and> map_of kvs k_hot_score = None \<longrightarrow> an_hot_score an = 50)
        \<and> (\<forall>text e. remote env m = Inr text
              \<and> json_loads env (clean_code_block (strip text)) = Inl e \<longrightarrow> an_hot_score an = 50))"
proof (intro conjI impI)
  assume run: "process_all env api_key articles n = Inr (ys, n')"
  show "\<forall>y\<in>set ys. \<exists>s. hot_score y = Some s \<and> 0 \<le> s \<and> s \<le> 100"
  proof
    fix y assume "y \<in> set ys"
    then obtain i where i: "i < length ys" "y = ys ! i"
      by (auto simp: in_set_conv_nth)
    from process_all_classified [OF run] i have "classified (articles ! i) y"
      by (simp add: list_all2_nthD2)
    then show "\<exists>s. hot_score y = Some s \<and> 0 \<le> s \<and> s \<le> 100"
      by (rule classified_score)
  qed
next
  assume an: "analyze_article env api_key a m = (Inr an, m')"
  show "hot_score (article_update a an) = Some (an_hot_score an)"
    by (simp add: article_update_def)
  from analyze_article_range [OF an]
  show "0 \<le> an_hot_score an" and "an_hot_score an \<le> 100" by simp_all
  show "\<forall>text kvs. remote env m = Inr text
          \<and> json_loads env (clean_code_block (strip text)) = Inr (PDict kvs)
          \<and> map_of kvs k_hot_score = None \<longrightarrow> an_hot_score an = 50"
    using analyze_article_cases [OF an]
    by (auto dest: default_analysis_score validate_result_missing_score)
  show "\<forall>text e. remote env m = Inr text
          \<and> json_loads env (clean_code_block (strip text)) = Inl e \<longrightarrow> an_hot_score an = 50"
    using analyze_article_cases [OF an]
    by (auto dest: default_analysis_score)
qed

theorem stored_hot_score_in_range_witness:
  "process_all bare_env sample_key [art1] 0
     = Inr ([article_update art1
               \<lparr> an_category = PStr fallback_category, an_summary = PStr [110, 101, 119],
                 an_hot_score = 100, an_keywords = PList [], an_reasoning = PStr [] \<rparr>], Suc 0)
   \<and> (\<exists>s. hot_score (article_update art1
               \<lparr> an_category = PStr fallback_category, an_summary = PStr [110, 101, 119],
                 an_hot_score = 100, an_keywords = PList [], an_reasoning = PStr [] \<rparr>) = Some s
          \<and> 0 \<le> s \<and> s \<le> 100)
   \<and> remote sample_env 1 = Inr [97, 98, 99]
   \<and> json_loads sample_env (clean_code_block (strip [97, 98, 99])) = Inl JSONDecodeError
   \<and> (\<exists>an. analyze_article sample_env sample_key art2 1 = (Inr an, 2) \<and> an_hot_score an = 50)
   \<and> remote sample_env 2 = Inr [123, 125]
   \<and> json_loads sample_env (clean_code_block (strip [123, 125])) = Inr (PDict [])
   \<and> map_of ([] :: (pystr \<times> pyval) list) k_hot_score = None
   \<and> (\<exists>an. analyze_article sample_env sample_key art1 2 = (Inr an, 3) \<and> an_hot_score an = 50)"
proof -
  have unparseable: "json_loads sample_env (clean_code_block (strip [97, 98, 99])) = Inl JSONDecodeError"
    by (simp add: strip_abc sample_env_def sample_loads_def) (simp add: reply_150_def)
  have reply1: "remote sample_env 1 = Inr [97, 98, 99]"
    by (simp add: sample_env_def sample_remote_def)
  have empty: "json_loads sample_env (clean_code_block (strip [123, 125])) = Inr (PDict [])"
    by (simp add: strip_braces sample_env_def sample_loads_def)
  have reply2: "remote sample_env 2 = Inr [123, 125]"
    by (simp add: sample_env_def sample_remote_def)
  from stored_hot_score_in_range
         [of bare_env sample_key "[art1]" 0 _ "Suc 0" art1 0 _ "Suc 0"]
       process_all_bare_art1 analyze_bare_art1
  have clamped: "\<exists>s. hot_score (article_update art1
               \<lparr> an_category = PStr fallback_category, an_summary = PStr [110, 101, 119],
                 an_hot_score = 100, an_keywords = PList [], an_reasoning = PStr [] \<rparr>) = Some s
          \<and> 0 \<le> s \<and> s \<le> 100"
    by simp
  from stored_hot_score_in_range [of sample_env sample_key "[]" 0 "[]" 0 art2 1 _ 2]
       analyze_sample_art2 reply1 unparseable
  have fifty1: "\<exists>an. analyze_article sample_env sample_key art2 1 = (Inr an, 2) \<and> an_hot_score an = 50"
    by simp
  from stored_hot_score_in_range [of sample_env sample_key "[]" 0 "[]" 0 art1 2 _ 3]
       analyze_sample_art1 reply2 empty
  have fifty2: "\<exists>an. analyze_article sample_env sample_key art1 2 = (Inr an, 3) \<and> an_hot_score an = 50"
    by simp
  from process_all_bare_art1 clamped reply1 unparseable fifty1 reply2 empty fifty2
  show ?thesis by simp
qed

text \<open>
  Claim C3. With no credential, \<open>process_all\<close> gives every article (that carries a summary)
  the default analysis: the fallback category, score 50, the unavailable marker, its own
  summary, and its first three tags (none when it has no tags); the counter of requests is
  unchanged and the result does not depend on the remote service, so no call is attempted.
\<close>

theorem no_credential_default_analysis:
  assumes "no_api_key api_key" and "\<forall>a\<in>set articles. summary a \<noteq> None"
  shows "\<exists>ys. process_all env api_key articles n = Inr (ys, n)
           \<and> list_all2 default_analysed articles ys
           \<and> list_all2 same_fetched_fields articles ys
           \<and> process_all env' api_key articles n = process_all env api_key articles n"
proof -
  from default_loop_analysed [OF assms(2)] obtain ys where
    "default_loop articles = Inr ys" "list_all2 default_analysed articles ys"
    "list_all2 same_fetched_fields articles ys"
    by blast
  with assms(1) show ?thesis
    by (simp add: process_all_def)
qed

theorem no_credential_default_analysis_witness:
  "\<exists>ys. process_all sample_env None [art1, art2] 0 = Inr (ys, 0)
      \<and> list_all2 default_analysed [art1, art2] ys
      \<and> map hot_score ys = [Some 50, Some 50]
      \<and> map key_words ys = [Some (PList [PStr [65, 73], PStr [76, 76, 77]]), Some (PList [])]"
proof -
  have k: "no_api_key None" by (simp add: no_api_key_def)
  have s: "\<forall>a\<in>set [art1, art2]. summary a \<noteq> None"
    by (simp add: art1_def art2_def blank_def)
  from no_credential_default_analysis [OF k s, of sample_env 0 sample_env]
  obtain ys where ys: "process_all sample_env None [art1, art2] 0 = Inr (ys, 0)"
      "list_all2 default_analysed [art1, art2] ys"
    by blast
  from ys(2) obtain y1 y2 where y: "ys = [y1, y2]" "default_analysed art1 y1" "default_analysed art2 y2"
    by (auto simp: list_all2_Cons1)
  from y have "map hot_score ys = [Some 50, Some 50]"
    by (simp add: default_analysed_def)
  moreover from y have
    "map key_words ys = [Some (PList [PStr [65, 73], PStr [76, 76, 77]]), Some (PList [])]"
    by (simp add: default_analysed_def art1_def art2_def blank_def)
  ultimately show ?thesis using ys by (intro exI [of _ ys]) simp
qed

text \<open>
  Claim C4, as amended. When a key is configured, the request is answered and the reply
  parses to a JSON object whose score can be read as an integer and whose keywords can be
  sliced, the analysis has the score clamped into 0..100, the keywords cut to five, the
  returned category, summary and reasoning as they are, and for a missing field: the
  fallback category, the first 100 characters of the article's summary, score 50, an empty
  keyword list and an empty reasoning.
\<close>

theorem successful_reply_analysis:
  assumes "\<not> no_api_key api_key"
    and "title a \<noteq> None" and "source a \<noteq> None" and "content a \<noteq> None"
    and "summary a = Some (PStr sm)"
    and "remote env n = Inr text"
    and "json_loads env (clean_code_block (strip text)) = Inr (PDict kvs)"
    and "py_int (int_of_str env) (case map_of kvs k_hot_score of None \<Rightarrow> PInt 50 | Some v \<Rightarrow> v) = Inr i"
    and "py_slice 5 (case map_of kvs k_keywords of None \<Rightarrow> PList [] | Some v \<Rightarrow> v) = Inr kw5"
  shows "\<exists>an. analyze_article env api_key a n = (Inr an, Suc n)
     \<and> an_hot_score an = min 100 (max 0 i) \<and> 0 \<le> an_hot_score an \<and> an_hot_score an \<le> 100
     \<and> an_keywords an = kw5
     \<and> (\<forall>ks. map_of kvs k_keywords = Some (PList ks) \<longrightarrow> an_keywords an = PList (take 5 ks))
     \<and> an_category an = (case map_of kvs k_category of None \<Rightarrow> PStr fallback_category | Some v \<Rightarrow> v)
     \<and> an_summary an = (case map_of kvs k_summary of None \<Rightarrow> PStr (take 100 sm) | Some v \<Rightarrow> v)
     \<and> an_reasoning an = (case map_of kvs k_reasoning of None \<Rightarrow> PStr [] | Some v \<Rightarrow> v)
     \<and> (map_of kvs k_hot_score = None \<longrightarrow> an_hot_score an = 50)
     \<and> (map_of kvs k_keywords = None \<longrightarrow> an_keywords an = PList [])"
proof -
  from assms(2-4) obtain p where p: "create_analysis_prompt a = Inr p"
    by (auto simp: create_analysis_prompt_def)
  let ?an = "\<lparr> an_category = (case map_of kvs k_category of None \<Rightarrow> PStr fallback_category | Some v \<Rightarrow> v),
               an_summary = (case map_of kvs k_summary of None \<Rightarrow> PStr (take 100 sm) | Some v \<Rightarrow> v),
               an_hot_score = min 100 (max 0 i), an_keywords = kw5,
               an_reasoning = (case map_of kvs k_reasoning of None \<Rightarrow> PStr [] | Some v \<Rightarrow> v) \<rparr>"
  have v: "validate_result (int_of_str env) a (PDict kvs) = Inr ?an"
    using assms(5,8,9) by (simp add: validate_result_def and_then_def py_get_def py_slice_def)
  have run: "analyze_article env api_key a n = (Inr ?an, Suc n)"
    using assms(1,6,7) by (simp add: analyze_article_def p v)
  have five: "\<forall>ks. map_of kvs k_keywords = Some (PList ks) \<longrightarrow> kw5 = PList (take 5 ks)"
    using assms(9) by (auto simp: py_slice_def)
  have fifty: "map_of kvs k_hot_score = None \<longrightarrow> min 100 (max 0 i) = 50"
    using assms(8) by (auto simp: py_int_def)
  have none: "map_of kvs k_keywords = None \<longrightarrow> kw5 = PList []"
    using assms(9) by (auto simp: py_slice_def)
  from run five fifty none show ?thesis by simp
qed

theorem successful_reply_analysis_witness:
  "analyze_article bare_env sample_key art1 0
     = (Inr \<lparr> an_category = PStr fallback_category, an_summary = PStr [110, 101, 119],
              an_hot_score = 100, an_keywords = PList [], an_reasoning = PStr [] \<rparr>, Suc 0)
   \<and> remote bare_env 0 = Inr reply_150
   \<and> json_loads bare_env (clean_code_block (strip reply_150)) = Inr (PDict [(k_hot_score, PInt 150)])"
proof -
  have r: "remote bare_env 0 = Inr reply_150" by (simp add: bare_env_def)
  have l: "json_loads bare_env (clean_code_block (strip reply_150)) = Inr (PDict [(k_hot_score, PInt 150)])"
    by (simp add: bare_env_def loads_reply_150)
  have t: "title art1 \<noteq> None" "source art1 \<noteq> None" "content art1 \<noteq> None"
    by (simp_all add: art1_def blank_def)
  have s: "summary art1 = Some (PStr [110, 101, 119])" by (simp add: art1_def blank_def)
  have i: "py_int (int_of_str bare_env)
             (case map_of [(k_hot_score, PInt 150)] k_hot_score of None \<Rightarrow> PInt 50 | Some v \<Rightarrow> v) = Inr 150"
    by (simp add: py_int_def)
  have kw: "py_slice 5 (case map_of [(k_hot_score, PInt 150)] k_keywords of None \<Rightarrow> PList [] | Some v \<Rightarrow> v)
              = Inr (PList [])"
    by (simp add: py_slice_def k_hot_score_def k_keywords_def)
  from successful_reply_analysis [OF key_set t s r l i kw] r l show ?thesis
    by (auto simp: k_hot_score_def k_keywords_def k_category_def k_summary_def k_reasoning_def)
qed

text \<open>
  The claim as the specification states it fails: for a reply \<open>{}\<close> and an article with
  two tags and a summary of 101 characters, the summary is cut to 100 characters, the
  keywords are the empty list and the reasoning is the empty string, while the fallback
  analysis of the same article has the whole summary, its tags and the unavailable marker.
\<close>

theorem missing_fields_counterexample:
  "validate_result sample_int_of_str art_long (PDict [])
     = Inr \<lparr> an_category = PStr fallback_category, an_summary = PStr (replicate 100 120),
             an_hot_score = 50, an_keywords = PList [], an_reasoning = PStr [] \<rparr>
   \<and> get_default_analysis art_long
     = Inr \<lparr> an_category = PStr fallback_category, an_summary = PStr (replicate 101 120),
             an_hot_score = 50, an_keywords = PList [PStr [65, 73], PStr [76, 76, 77]],
             an_reasoning = PStr unavailable_marker \<rparr>
   \<and> PStr (replicate 100 120) \<noteq> PStr (replicate 101 120)
   \<and> PList [] \<noteq> PList [PStr [65, 73], PStr [76, 76, 77]]
   \<and> PStr [] \<noteq> PStr unavailable_marker"
proof -
  have v: "validate_result sample_int_of_str art_long (PDict [])
     = Inr \<lparr> an_category = PStr fallback_category, an_summary = PStr (replicate 100 120),
             an_hot_score = 50, an_keywords = PList [], an_reasoning = PStr [] \<rparr>"
    by (simp add: validate_result_def and_then_def py_get_def py_slice_def py_int_def
        art_long_def art1_def blank_def)
  have d: "get_default_analysis art_long
     = Inr \<lparr> an_category = PStr fallback_category, an_summary = PStr (replicate 101 120),
             an_hot_score = 50, an_keywords = PList [PStr [65, 73], PStr [76, 76, 77]],
             an_reasoning = PStr unavailable_marker \<rparr>"
    by (simp add: get_default_analysis_def art_long_def art1_def blank_def)
  show ?thesis
    by (simp add: v d unavailable_marker_def)
qed

text \<open>
  Claim C9. For a JSON object text \<open>j\<close>, the cleaned text is \<open>strip j\<close> whether the service
  returns \<open>j\<close> bare or between a fence prefix (with or without \<open>json\<close>) and a fence suffix,
  with any whitespace around; so the parser is given the same text and the analysis is the
  same.
\<close>

theorem fenced_reply_same_analysis:
  assumes "json_object_text j"
    and "list_all py_isspace w1" and "list_all py_isspace w2"
    and "pre = fence \<or> pre = fence_json"
    and "remote env n = Inr j"
    and "remote env' n = Inr (w1 @ pre @ j @ fence @ w2)"
    and "json_loads env' = json_loads env" and "int_of_str env' = int_of_str env"
  shows "clean_code_block (strip (w1 @ pre @ j @ fence @ w2)) = strip j
       \<and> clean_code_block (strip j) = strip j
       \<and> analyze_article env' api_key a n = analyze_article env api_key a n"
proof -
  have f: "clean_code_block (strip (w1 @ pre @ j @ fence @ w2)) = strip j"
    by (rule clean_fenced [OF assms(1-4)])
  have b: "clean_code_block (strip j) = strip j"
    by (rule clean_bare [OF assms(1)])
  have "analyze_article env' api_key a n = analyze_article env api_key a n"
    by (simp add: analyze_article_def assms(5,6,7,8) f b split: sum.splits)
  with f b show ?thesis by simp
qed

theorem fenced_reply_same_analysis_witness:
  "clean_code_block (strip ([10] @ fence_json @ reply_150 @ fence @ [10])) = strip reply_150
   \<and> analyze_article
        \<lparr> json_loads = sample_loads, int_of_str = sample_int_of_str,
          remote = (\<lambda>n. Inr ([10] @ fence_json @ reply_150 @ fence @ [10])) \<rparr> sample_key art1 0
      = analyze_article bare_env sample_key art1 0
   \<and> analyze_article bare_env sample_key art1 0
      = (Inr \<lparr> an_category = PStr fallback_category, an_summary = PStr [110, 101, 119],
               an_hot_score = 100, an_keywords = PList [], an_reasoning = PStr [] \<rparr>, Suc 0)"
proof -
  have w: "list_all py_isspace [10]" by (simp add: py_isspace_def)
  have p: "fence_json = fence \<or> fence_json = fence_json" by simp
  have r: "remote bare_env 0 = Inr reply_150" by (simp add: bare_env_def)
  from fenced_reply_same_analysis [OF object_reply_150 w w p r,
      of "\<lparr> json_loads = sample_loads, int_of_str = sample_int_of_str,
            remote = (\<lambda>n. Inr ([10] @ fence_json @ reply_150 @ fence @ [10])) \<rparr>" sample_key art1]
    analyze_bare_art1
  show ?thesis by (simp add: bare_env_def)
qed

text \<open>
  Claim C10. For articles that carry a title and a summary, \<open>process_all\<close> returns a list of
  the same length, each element being the input article at that position after
  \<open>update\<close> with an analysis; the fields the fetcher wrote are unchanged.
\<close>

theorem process_all_frame:
  assumes "\<forall>a\<in>set articles. title a \<noteq> None \<and> summary a \<noteq> None"
  shows "\<exists>ys n'. process_all env api_key articles n = Inr (ys, n')
          \<and> length ys = length articles
          \<and> list_all2 (\<lambda>a y. \<exists>an. y = article_update a an) articles ys
          \<and> list_all2 same_fetched_fields articles ys"
proof -
  have "\<exists>ys n'. process_all env api_key articles n = Inr (ys, n')"
  proof (cases "no_api_key api_key")
    case True
    from assms have "\<forall>a\<in>set articles. summary a \<noteq> None" by simp
    from default_loop_analysed [OF this] True show ?thesis
      by (auto simp: process_all_def)
  next
    case False
    with all_loop_total [OF assms, of env api_key 0 "[]" n] show ?thesis
      by (simp add: process_all_def)
  qed
  then obtain ys n' where run: "process_all env api_key articles n = Inr (ys, n')"
    by blast
  from process_all_classified [OF run] have c: "list_all2 classified articles ys" .
  then have "length ys = length articles"
    by (simp add: list_all2_lengthD)
  moreover from c have "list_all2 (\<lambda>a y. \<exists>an. y = article_update a an) articles ys"
    by (rule list_all2_mono) (auto simp: classified_def)
  moreover from c have "list_all2 same_fetched_fields articles ys"
    by (rule list_all2_mono) (rule classified_frame)
  ultimately show ?thesis using run by blast
qed

theorem process_all_frame_witness:
  "process_all bare_env sample_key [art1] 0
     = Inr ([article_update art1
               \<lparr> an_category = PStr fallback_category, an_summary = PStr [110, 101, 119],
                 an_hot_score = 100, an_keywords = PList [], an_reasoning = PStr [] \<rparr>], Suc 0)
   \<and> (\<exists>ys n'. process_all bare_env sample_key [art1] 0 = Inr (ys, n')
         \<and> length ys = length [art1]
         \<and> list_all2 same_fetched_fields [art1] ys)"
proof -
  have t: "\<forall>a\<in>set [art1]. title a \<noteq> None \<and> summary a \<noteq> None"
    by (simp add: art1_def blank_def)
  from process_all_frame [OF t, of bare_env sample_key 0] process_all_bare_art1
  show ?thesis by auto
qed

section \<open>Filtering and sorting by score\<close>

lemma sort_by_hot_score_desc:
  "sorted_wrt (\<lambda>a b. score a \<ge> score b) (sort_key (\<lambda>x. - score x) xs)"
proof -
  have "sorted (map (\<lambda>x. - score x) (sort_key (\<lambda>x. - score x) xs))"
    by (rule sorted_sort_key)
  then show ?thesis
    by (simp add: sorted_map)
qed

lemma sort_by_hot_score_stable:
  "filter (\<lambda>a. score a = s) (sort_key (\<lambda>x. - score x) xs) = filter (\<lambda>a. score a = s) xs"
  using sort_key_stable [of "\<lambda>x. - score x" "- s" xs] by simp

text \<open>
  Claim C5. \<open>filter_by_hot_score\<close> returns the articles whose score (0 when the field is
  absent) is at least the threshold, each as often as in the input and in the input's
  order; \<open>sort_by_hot_score\<close> returns a permutation of the input with non-increasing
  scores in which articles of equal score keep their original order.
\<close>

theorem filter_and_sort_by_hot_score:
  "subseq (filter_by_hot_score xs t) xs
   \<and> mset (filter_by_hot_score xs t) = filter_mset (\<lambda>a. t \<le> score a) (mset xs)
   \<and> filter_by_hot_score xs t = filter (\<lambda>a. t \<le> (case hot_score a of None \<Rightarrow> 0 | Some s \<Rightarrow> s)) xs
   \<and> mset (sort_by_hot_score xs True) = mset xs
   \<and> sorted_wrt (\<lambda>a b. score a \<ge> score b) (sort_by_hot_score xs True)
   \<and> (\<forall>s. filter (\<lambda>a. score a = s) (sort_by_hot_score xs True) = filter (\<lambda>a. score a = s) xs)"
proof -
  have f1: "subseq (filter_by_hot_score xs t) xs"
    by (simp add: filter_by_hot_score_def)
  have f2: "mset (filter_by_hot_score xs t) = filter_mset (\<lambda>a. t \<le> score a) (mset xs)"
    by (simp add: filter_by_hot_score_def)
  have f3: "filter_by_hot_score xs t
          = filter (\<lambda>a. t \<le> (case hot_score a of None \<Rightarrow> 0 | Some s \<Rightarrow> s)) xs"
    by (simp add: filter_by_hot_score_def score_def)
  have s1: "mset (sort_by_hot_score xs True) = mset xs"
    by (simp add: sort_by_hot_score_def)
  have s2: "sorted_wrt (\<lambda>a b. score a \<ge> score b) (sort_by_hot_score xs True)"
    by (simp add: sort_by_hot_score_def sort_by_hot_score_desc)
  have s3: "\<forall>s. filter (\<lambda>a. score a = s) (sort_by_hot_score xs True) = filter (\<lambda>a. score a = s) xs"
    by (simp add: sort_by_hot_score_def sort_by_hot_score_stable)
  from f1 f2 f3 s1 s2 s3 show ?thesis by blast
qed

theorem filter_and_sort_by_hot_score_witness:
  "filter_by_hot_score [scored1, scored2, scored3] 60 = [scored2]
   \<and> sort_by_hot_score [scored1, scored2, scored3] True = [scored2, scored1, scored3]
   \<and> map score [scored2, scored1, scored3] = [90, 50, 50]"
proof -
  have s: "score scored1 = 50" "score scored2 = 90" "score scored3 = 50"
    by (simp_all add: score_def scored1_def scored2_def scored3_def)
  have f: "filter_by_hot_score [scored1, scored2, scored3] 60 = [scored2]"
    by (simp add: filter_by_hot_score_def s)
  have o: "sort_by_hot_score [scored1, scored2, scored3] True = [scored2, scored1, scored3]"
    by (simp add: sort_by_hot_score_def s)
  from filter_and_sort_by_hot_score [of "[scored1, scored2, scored3]" 60] f o s
  show ?thesis by simp
qed

section \<open>Properties of the grouping\<close>

lemma unseen_notin: "c \<in> set (unseen k S xs) \<Longrightarrow> k c \<notin> S"
proof -
  assume "c \<in> set (unseen k S xs)"
  then have "k c \<in> k ` set (unseen k S xs)" by (rule imageI)
  then show ?thesis by (simp add: unseen_keys)
qed

lemma dict_append_to_no_match:
  "dict_key c \<notin> set (map (\<lambda>kv. dict_key (fst kv)) d) \<Longrightarrow> dict_append_to d c x = d"
  by (induction d) auto

lemma map_no_match:
  "dict_key c \<notin> set (map (\<lambda>kv. dict_key (fst kv)) d)
     \<Longrightarrow> map (\<lambda>(k, v). (k, if dict_key k = dict_key c then v @ [x] else v)) d = d"
  by (induction d) auto

lemma dict_append_to_map:
  assumes "distinct (map (\<lambda>kv. dict_key (fst kv)) d)"
  shows "dict_append_to d c x
           = map (\<lambda>(k, v). (k, if dict_key k = dict_key c then v @ [x] else v)) d"
  using assms
proof (induction d)
  case Nil
  show ?case by simp
next
  case (Cons kv d)
  obtain k v where kv: "kv = (k, v)" by (cases kv)
  show ?case
  proof (cases "dict_key k = dict_key c")
    case True
    with Cons.prems kv have "dict_key c \<notin> set (map (\<lambda>kv. dict_key (fst kv)) d)"
      by auto
    from map_no_match [OF this] True kv show ?thesis by simp
  next
    case False
    with Cons kv show ?thesis by simp
  qed
qed

lemma add_article_known:
  assumes "hashable (cat_of x)" and "distinct (map (\<lambda>kv. dict_key (fst kv)) d)"
    and "dict_key (cat_of x) \<in> set (map (\<lambda>kv. dict_key (fst kv)) d)"
  shows "add_article d x
           = Inr (map (\<lambda>(k, v). (k, if dict_key k = dict_key (cat_of x) then v @ [x] else v)) d)"
  using assms by (simp add: add_article_def dict_has_def dict_append_to_map)

lemma add_article_new:
  assumes "hashable (cat_of x)" and "distinct (map (\<lambda>kv. dict_key (fst kv)) d)"
    and "dict_key (cat_of x) \<notin> set (map (\<lambda>kv. dict_key (fst kv)) d)"
  shows "add_article d x = Inr (d @ [(cat_of x, [x])])"
proof -
  have "distinct (map (\<lambda>kv. dict_key (fst kv)) (d @ [(cat_of x, [])]))"
    using assms(2,3) by simp
  from dict_append_to_map [OF this, of "cat_of x" x] map_no_match [OF assms(3), of x]
  have "dict_append_to (d @ [(cat_of x, [])]) (cat_of x) x = d @ [(cat_of x, [x])]"
    by simp
  with assms(1,3) show ?thesis
    by (simp add: add_article_def dict_has_def)
qed

lemma group_loop_closed:
  assumes "\<forall>a\<in>set xs. hashable (cat_of a)"
    and "distinct (map (\<lambda>kv. dict_key (fst kv)) d)"
  shows "group_loop xs d
           = Inr (map (\<lambda>(k, v). (k, v @ filter (\<lambda>a. dict_key (cat_of a) = dict_key k) xs))
                    (d @ map (\<lambda>c. (c, []))
                           (unseen dict_key (set (map (\<lambda>kv. dict_key (fst kv)) d)) (map cat_of xs))))"
  using assms
proof (induction xs arbitrary: d)
  case Nil
  show ?case by (simp add: case_prod_beta)
next
  case (Cons x xs)
  let ?S = "set (map (\<lambda>kv. dict_key (fst kv)) d)"
  let ?c = "cat_of x"
  from Cons.prems have h: "hashable ?c" and hs: "\<forall>a\<in>set xs. hashable (cat_of a)"
    by simp_all
  show ?case
  proof (cases "dict_key ?c \<in> ?S")
    case True
    let ?d1 = "map (\<lambda>(k, v). (k, if dict_key k = dict_key ?c then v @ [x] else v)) d"
    have step: "add_article d x = Inr ?d1"
      by (rule add_article_known [OF h Cons.prems(2) True])
    have keys: "map (\<lambda>kv. dict_key (fst kv)) ?d1 = map (\<lambda>kv. dict_key (fst kv)) d"
      by (simp add: case_prod_beta o_def)
    have dist: "distinct (map (\<lambda>kv. dict_key (fst kv)) ?d1)"
      using Cons.prems(2) by (simp only: keys)
    have new: "unseen dict_key ?S (map cat_of (x # xs)) = unseen dict_key ?S (map cat_of xs)"
      using True by simp
    have old_part: "map (\<lambda>(k, v). (k, v @ filter (\<lambda>a. dict_key (cat_of a) = dict_key k) xs)) ?d1
        = map (\<lambda>(k, v). (k, v @ filter (\<lambda>a. dict_key (cat_of a) = dict_key k) (x # xs))) d"
      by (auto simp: case_prod_beta)
    have new_part: "map (\<lambda>(k, v). (k, v @ filter (\<lambda>a. dict_key (cat_of a) = dict_key k) xs))
                      (map (\<lambda>c. (c, [])) (unseen dict_key ?S (map cat_of xs)))
        = map (\<lambda>(k, v). (k, v @ filter (\<lambda>a. dict_key (cat_of a) = dict_key k) (x # xs)))
            (map (\<lambda>c. (c, [])) (unseen dict_key ?S (map cat_of xs)))"
    proof -
      have "\<forall>c'\<in>set (unseen dict_key ?S (map cat_of xs)). dict_key c' \<noteq> dict_key ?c"
      proof
        fix c' assume "c' \<in> set (unseen dict_key ?S (map cat_of xs))"
        then have "dict_key c' \<notin> ?S" by (rule unseen_notin)
        with True show "dict_key c' \<noteq> dict_key ?c" by metis
      qed
      then show ?thesis by auto
    qed
    show ?thesis
      using Cons.IH [OF hs dist]
      by (simp only: group_loop.simps step sum.case keys new map_append old_part new_part)
  next
    case False
    let ?d1 = "d @ [(?c, [x])]"
    let ?S1 = "insert (dict_key ?c) ?S"
    have step: "add_article d x = Inr ?d1"
      by (rule add_article_new [OF h Cons.prems(2) False])
    have keys: "set (map (\<lambda>kv. dict_key (fst kv)) ?d1) = ?S1"
      by simp
    have dist: "distinct (map (\<lambda>kv. dict_key (fst kv)) ?d1)"
      using Cons.prems(2) False by simp
    have new: "unseen dict_key ?S (map cat_of (x # xs)) = ?c # unseen dict_key ?S1 (map cat_of xs)"
      using False by simp
    have old_part: "map (\<lambda>(k, v). (k, v @ filter (\<lambda>a. dict_key (cat_of a) = dict_key k) xs)) d
        = map (\<lambda>(k, v). (k, v @ filter (\<lambda>a. dict_key (cat_of a) = dict_key k) (x # xs))) d"
    proof -
      have "\<forall>kv\<in>set d. dict_key (fst kv) \<noteq> dict_key ?c"
        using False by force
      then show ?thesis by (auto simp: case_prod_beta)
    qed
    have ne: "\<forall>c'\<in>set (unseen dict_key ?S1 (map cat_of xs)).
                dict_key c' \<noteq> dict_key ?c \<and> dict_key ?c \<noteq> dict_key c'"
    proof
      fix c' assume "c' \<in> set (unseen dict_key ?S1 (map cat_of xs))"
      then have "dict_key c' \<notin> ?S1" by (rule unseen_notin)
      then show "dict_key c' \<noteq> dict_key ?c \<and> dict_key ?c \<noteq> dict_key c'" by auto
    qed
    have ih: "group_loop xs ?d1
        = Inr (map (\<lambda>(k, v). (k, v @ filter (\<lambda>a. dict_key (cat_of a) = dict_key k) xs))
                 (?d1 @ map (\<lambda>c. (c, [])) (unseen dict_key ?S1 (map cat_of xs))))"
      using Cons.IH [OF hs dist] by (simp only: keys)
    show ?thesis
      using ne by (simp only: group_loop.simps step sum.case ih new) (simp add: old_part)
  qed
qed

lemma canonical_keys_distinct:
  "distinct (map (\<lambda>kv. dict_key (fst kv)) (map (\<lambda>c. (PStr c, [])) category_order))"
  by (simp add: category_order_def dict_key_def)

lemma canonical_keys_set:
  "set (map (\<lambda>kv. dict_key (fst kv)) (map (\<lambda>c. (PStr c, [])) category_order))
     = set (map (\<lambda>c. dict_key (PStr c)) category_order)"
  by (simp add: o_def)

lemma grouped_closed:
  assumes "\<forall>a\<in>set articles. hashable (cat_of a)"
  shows "group_loop articles (map (\<lambda>c. (PStr c, [])) category_order)
           = Inr (map (\<lambda>k. (k, filter (\<lambda>a. dict_key (cat_of a) = dict_key k) articles))
                    (bucket_keys articles))"
proof -
  have "group_loop articles (map (\<lambda>c. (PStr c, [])) category_order)
      = Inr (map (\<lambda>(k, v). (k, v @ filter (\<lambda>a. dict_key (cat_of a) = dict_key k) articles))
               (map (\<lambda>c. (PStr c, [])) category_order
                @ map (\<lambda>c. (c, []))
                    (unseen dict_key (set (map (\<lambda>c. dict_key (PStr c)) category_order))
                       (map cat_of articles))))"
    using group_loop_closed [OF assms canonical_keys_distinct]
    by (simp only: canonical_keys_set)
  then show ?thesis
    by (simp add: bucket_keys_def o_def)
qed

lemma bucket_keys_distinct: "distinct (map dict_key (bucket_keys articles))"
proof -
  let ?S = "set (map (\<lambda>c. dict_key (PStr c)) category_order)"
  let ?N = "unseen dict_key ?S (map cat_of articles)"
  have a: "distinct (map dict_key (map PStr category_order))"
    using canonical_keys_distinct by (simp add: o_def)
  have n: "distinct (map dict_key ?N)"
    by (rule unseen_distinct)
  have "dict_key ` set ?N = dict_key ` set (map cat_of articles) - ?S"
    by (rule unseen_keys)
  then have "set (map dict_key (map PStr category_order)) \<inter> set (map dict_key ?N) = {}"
    by (auto simp: image_image)
  with a n show ?thesis
    unfolding bucket_keys_def by (simp only: map_append distinct_append)
qed

lemma bucket_keys_cover: "a \<in> set articles \<Longrightarrow> dict_key (cat_of a) \<in> dict_key ` set (bucket_keys articles)"
proof -
  assume a: "a \<in> set articles"
  let ?S = "set (map (\<lambda>c. dict_key (PStr c)) category_order)"
  have "dict_key ` set (bucket_keys articles)
      = ?S \<union> (dict_key ` set (map cat_of articles) - ?S)"
    by (simp add: bucket_keys_def image_Un unseen_keys image_image)
  with a show ?thesis by auto
qed

section \<open>Integer true division\<close>

lemma powi_neg: "e \<le> 0 \<Longrightarrow> (2::rat) powi e = 1 / 2 ^ nat (- e)"
  by (simp add: power_int_def inverse_eq_divide power_one_over)

lemma powi_nonneg: "0 \<le> e \<Longrightarrow> (2::rat) powi e = 2 ^ nat e"
  by (simp add: power_int_def)

lemma float_value_powi: "float_value m e = of_int m * 2 powi e"
proof (cases "0 \<le> e")
  case True
  then show ?thesis by (simp add: float_value_def powi_nonneg)
next
  case False
  then show ?thesis by (simp add: float_value_def powi_neg)
qed

lemma div_lower: "0 < (d::int) \<Longrightarrow> n div d * d \<le> n"
proof -
  assume d: "0 < d"
  have "n = n div d * d + n mod d" by simp
  moreover have "0 \<le> n mod d" using d by simp
  ultimately show ?thesis by linarith
qed

lemma div_upper: "0 < (d::int) \<Longrightarrow> n < (n div d + 1) * d"
proof -
  assume d: "0 < d"
  have "n = n div d * d + n mod d" by simp
  moreover have "n mod d < d" using d by simp
  moreover have "(n div d + 1) * d = n div d * d + d" by (simp add: algebra_simps)
  ultimately show ?thesis by linarith
qed

lemma div_less_bound: "0 < (d::int) \<Longrightarrow> n div d < c \<Longrightarrow> n < c * d"
proof -
  assume d: "0 < d" and c: "n div d < c"
  then have "(n div d + 1) * d \<le> c * d" by (intro mult_right_mono) simp_all
  with div_upper [OF d, of n] show ?thesis by linarith
qed

lemma div_ge_bound: "0 < (d::int) \<Longrightarrow> c \<le> n div d \<Longrightarrow> c * d \<le> n"
proof -
  assume d: "0 < d" and c: "c \<le> n div d"
  then have "c * d \<le> n div d * d" by (intro mult_right_mono) simp_all
  with div_lower [OF d, of n] show ?thesis by linarith
qed

lemma less_bound_div: "0 < (d::int) \<Longrightarrow> n < c * d \<Longrightarrow> n div d < c"
proof (rule ccontr)
  assume d: "0 < d" and n: "n < c * d" and "\<not> n div d < c"
  then have "c \<le> n div d" by simp
  from div_ge_bound [OF d this] n show False by simp
qed

lemma round_half_even_int:
  assumes "0 < den"
  shows "2 * \<bar>round_half_even num den * den - num\<bar> \<le> den"
proof -
  define m0 where "m0 = num div den"
  define r where "r = num mod den"
  have eq: "num = m0 * den + r" by (simp add: m0_def r_def)
  have r: "0 \<le> r" "r < den" using assms by (simp_all add: r_def)
  have up: "(m0 + 1) * den - num = den - r" by (simp add: eq algebra_simps)
  have down: "m0 * den - num = - r" by (simp add: eq)
  show ?thesis
  proof (cases "den < 2 * r \<or> (2 * r = den \<and> odd m0)")
    case True
    then have "round_half_even num den = m0 + 1"
      by (simp add: round_half_even_def Let_def m0_def r_def)
    with up r True show ?thesis by auto
  next
    case False
    then have "round_half_even num den = m0"
      by (simp add: round_half_even_def Let_def m0_def r_def)
    with down r False show ?thesis by auto
  qed
qed

lemma round_half_even_near:
  assumes "0 < den"
  shows "\<bar>(of_int (round_half_even num den) :: rat) - of_int num / of_int den\<bar> \<le> 1 / 2"
proof -
  let ?m = "round_half_even num den"
  have d: "(0::rat) < of_int den" using assms by simp
  have "(of_int (2 * \<bar>?m * den - num\<bar>) :: rat) \<le> of_int den"
    using round_half_even_int [OF assms, of num] by (simp only: of_int_le_iff)
  then have "2 * \<bar>(of_int ?m :: rat) * of_int den - of_int num\<bar> \<le> of_int den"
    by simp
  moreover have "(of_int ?m :: rat) * of_int den - of_int num
      = (of_int ?m - of_int num / of_int den) * of_int den"
    using d by (simp add: field_simps)
  ultimately have "2 * (\<bar>(of_int ?m :: rat) - of_int num / of_int den\<bar> * of_int den) \<le> 1 * of_int den"
    using d by (simp add: abs_mult)
  then have "(2 * \<bar>(of_int ?m :: rat) - of_int num / of_int den\<bar>) * of_int den \<le> 1 * of_int den"
    by (simp add: mult.assoc)
  then have "2 * \<bar>(of_int ?m :: rat) - of_int num / of_int den\<bar> \<le> 1"
    using d by (simp only: mult_le_cancel_right_pos)
  then show ?thesis by simp
qed

lemma round_half_even_exact: "0 < den \<Longrightarrow> round_half_even (k * den) den = k"
  by (simp add: round_half_even_def Let_def)

lemma round_half_even_range:
  assumes "0 < den" "0 \<le> num" "num < c * den"
  shows "0 \<le> round_half_even num den" "round_half_even num den \<le> c"
proof -
  have "num div den < c" using assms by (intro less_bound_div)
  moreover have "0 \<le> num div den" using assms by (simp add: pos_imp_zdiv_nonneg_iff)
  ultimately show "0 \<le> round_half_even num den" "round_half_even num den \<le> c"
    by (simp_all add: round_half_even_def Let_def)
qed

lemma bitlen_pos: "0 < k \<Longrightarrow> 0 < bitlen k"
  using bitlen_bounds [of k] bitlen_nonneg [of k]
  by (cases "bitlen k = 0") auto

lemma quotient_exponent_lower:
  assumes "0 < n" "0 < d"
  shows "(2::rat) powi quotient_exponent n d \<le> of_int n / of_int d"
proof -
  have dr: "(0::rat) < of_int d" and nr: "(0::rat) < of_int n" using assms by simp_all
  show ?thesis
  proof (cases "d \<le> n")
    case True
    define k where "k = n div d"
    have k: "0 < k" using True assms by (simp add: k_def pos_imp_zdiv_pos_iff)
    have "2 ^ nat (bitlen k - 1) \<le> k" using bitlen_bounds [OF k] by simp
    then have "2 ^ nat (bitlen k - 1) * d \<le> n"
      unfolding k_def by (rule div_ge_bound [OF assms(2)])
    then have "(of_int (2 ^ nat (bitlen k - 1) * d) :: rat) \<le> of_int n"
      by (simp only: of_int_le_iff)
    then have "(2::rat) ^ nat (bitlen k - 1) \<le> of_int n / of_int d"
      using dr by (simp add: pos_le_divide_eq)
    moreover have "0 \<le> bitlen k - 1" using bitlen_pos [OF k] by simp
    ultimately show ?thesis using True
      by (simp add: quotient_exponent_def k_def powi_nonneg)
  next
    case False
    define k where "k = (d - 1) div n"
    have k: "0 < k" using False assms by (simp add: k_def pos_imp_zdiv_pos_iff)
    have "k < 2 ^ nat (bitlen k)" using bitlen_bounds [OF k] by simp
    then have "d - 1 < 2 ^ nat (bitlen k) * n"
      unfolding k_def by (rule div_less_bound [OF assms(1)])
    then have "d \<le> 2 ^ nat (bitlen k) * n" by simp
    then have "(of_int d :: rat) \<le> of_int (2 ^ nat (bitlen k) * n)"
      by (simp only: of_int_le_iff)
    then have "(of_int d :: rat) \<le> 2 ^ nat (bitlen k) * of_int n" by simp
    then have "1 / (2::rat) ^ nat (bitlen k) \<le> of_int n / of_int d"
      using dr by (simp add: field_simps)
    moreover have "- bitlen k \<le> 0" using bitlen_pos [OF k] by simp
    ultimately show ?thesis using False
      by (simp add: quotient_exponent_def k_def powi_neg)
  qed
qed

lemma quotient_exponent_upper:
  assumes "0 < n" "0 < d"
  shows "(of_int n / of_int d :: rat) < 2 powi (quotient_exponent n d + 1)"
proof -
  have dr: "(0::rat) < of_int d" and nr: "(0::rat) < of_int n" using assms by simp_all
  show ?thesis
  proof (cases "d \<le> n")
    case True
    define k where "k = n div d"
    have k: "0 < k" using True assms by (simp add: k_def pos_imp_zdiv_pos_iff)
    have b: "0 < bitlen k" by (rule bitlen_pos [OF k])
    have "k < 2 ^ nat (bitlen k)" using bitlen_bounds [OF k] by simp
    then have "n < 2 ^ nat (bitlen k) * d"
      unfolding k_def by (rule div_less_bound [OF assms(2)])
    then have "(of_int n :: rat) < of_int (2 ^ nat (bitlen k) * d)"
      by (simp only: of_int_less_iff)
    then have "(of_int n / of_int d :: rat) < 2 ^ nat (bitlen k)"
      using dr by (simp add: pos_divide_less_eq)
    then show ?thesis using True b
      by (simp add: quotient_exponent_def k_def powi_nonneg)
  next
    case False
    define k where "k = (d - 1) div n"
    have k: "0 < k" using False assms by (simp add: k_def pos_imp_zdiv_pos_iff)
    have b: "0 < bitlen k" by (rule bitlen_pos [OF k])
    have "2 ^ nat (bitlen k - 1) \<le> k" using bitlen_bounds [OF k] by simp
    then have "2 ^ nat (bitlen k - 1) * n \<le> d - 1"
      unfolding k_def by (rule div_ge_bound [OF assms(1)])
    then have "2 ^ nat (bitlen k - 1) * n < d" by simp
    then have "(of_int (2 ^ nat (bitlen k - 1) * n) :: rat) < of_int d"
      by (simp only: of_int_less_iff)
    then have "(2::rat) ^ nat (bitlen k - 1) * of_int n < of_int d" by simp
    then have "(of_int n / of_int d :: rat) < 1 / 2 ^ nat (bitlen k - 1)"
      using dr by (simp add: field_simps)
    moreover have "- bitlen k + 1 \<le> 0" using b by simp
    moreover have "nat (- (- bitlen k + 1)) = nat (bitlen k - 1)" by simp
    ultimately show ?thesis using False
      by (simp add: quotient_exponent_def k_def powi_neg)
  qed
qed

lemma powi_pos: "(0::rat) < 2 powi e"
  by (simp add: zero_less_power_int)

lemma round_scaled_ratio:
  assumes "0 < d"
  shows "\<exists>num den. 0 < den \<and> round_scaled n d e = round_half_even num den
           \<and> (0 \<le> n \<longrightarrow> 0 \<le> num)
           \<and> (of_int num / of_int den :: rat) = of_int n / of_int d / 2 powi e"
proof (cases "0 \<le> e")
  case True
  have "0 < d * 2 ^ nat e" using assms by simp
  moreover have "round_scaled n d e = round_half_even n (d * 2 ^ nat e)"
    using True by (simp add: round_scaled_def)
  moreover have "(of_int n / of_int (d * 2 ^ nat e) :: rat) = of_int n / of_int d / 2 powi e"
    using True by (simp add: powi_nonneg)
  ultimately show ?thesis by blast
next
  case False
  then have e: "e \<le> 0" by simp
  have "round_scaled n d e = round_half_even (n * 2 ^ nat (- e)) d"
    using False by (simp add: round_scaled_def)
  moreover have "(of_int (n * 2 ^ nat (- e)) / of_int d :: rat) = of_int n / of_int d / 2 powi e"
    by (simp add: powi_neg [OF e])
  moreover have "0 \<le> n \<longrightarrow> 0 \<le> n * 2 ^ nat (- e)" by simp
  ultimately show ?thesis using assms by blast
qed

lemma round_scaled_near:
  assumes "0 < d"
  shows "\<bar>(of_int (round_scaled n d e) :: rat) - of_int n / of_int d / 2 powi e\<bar> \<le> 1 / 2"
proof -
  from round_scaled_ratio [OF assms, of n e] obtain num den where
    "0 < den" "round_scaled n d e = round_half_even num den"
    "(of_int num / of_int den :: rat) = of_int n / of_int d / 2 powi e"
    by blast
  with round_half_even_near [of den num] show ?thesis by simp
qed

lemma round_scaled_range:
  assumes "0 < d" "0 \<le> n" "(of_int n / of_int d / 2 powi e :: rat) < of_int c"
  shows "0 \<le> round_scaled n d e" "round_scaled n d e \<le> c"
proof -
  from round_scaled_ratio [OF assms(1), of n e] assms(2) obtain num den where
    den: "0 < den" and m: "round_scaled n d e = round_half_even num den" and num: "0 \<le> num" and
    eq: "(of_int num / of_int den :: rat) = of_int n / of_int d / 2 powi e"
    by blast
  have "(of_int num / of_int den :: rat) < of_int c" using assms(3) by (simp only: eq)
  then have "(of_int num :: rat) < of_int c * of_int den"
    using den by (simp add: pos_divide_less_eq)
  then have "(of_int num :: rat) < of_int (c * den)" by simp
  then have "num < c * den" by (simp only: of_int_less_iff)
  from round_half_even_range [OF den num this] m
  show "0 \<le> round_scaled n d e" "round_scaled n d e \<le> c" by simp_all
qed

lemma nearest_int:
  fixes t :: rat
  assumes "\<bar>of_int m - t\<bar> \<le> 1 / 2"
  shows "\<bar>of_int m - t\<bar> \<le> \<bar>of_int k - t\<bar>"
proof (cases "k = m")
  case True
  then show ?thesis by simp
next
  case False
  then have "1 \<le> \<bar>k - m\<bar>" by simp
  then have "(of_int 1 :: rat) \<le> of_int \<bar>k - m\<bar>" by (simp only: of_int_le_iff)
  then have "(1::rat) \<le> \<bar>of_int k - of_int m\<bar>" by simp
  with assms show ?thesis by linarith
qed

lemma powi_shift: "(2::rat) powi (e + int k) = 2 powi e * 2 ^ k"
  by (simp add: power_int_add power_int_of_nat)

lemma float_exponent_cases:
  "(float_exponent n d = quotient_exponent n d - 52 \<and> - 1074 \<le> float_exponent n d)
   \<or> (float_exponent n d = - 1074 \<and> quotient_exponent n d - 52 \<le> - 1074)"
  by (auto simp: float_exponent_def max_def)

lemma pos_near:
  assumes "0 < n" "0 < d"
  shows "\<bar>of_int (round_scaled n d (float_exponent n d)) * 2 powi float_exponent n d
           - (of_int n / of_int d :: rat)\<bar> \<le> 2 powi float_exponent n d / 2"
proof -
  let ?e = "float_exponent n d"
  let ?m = "round_scaled n d ?e"
  let ?q = "of_int n / of_int d :: rat"
  have u: "(0::rat) < 2 powi ?e" by (rule powi_pos)
  have "(of_int ?m * 2 powi ?e - ?q) = (of_int ?m - ?q / 2 powi ?e) * 2 powi ?e"
    using u by (simp add: field_simps)
  then have "\<bar>of_int ?m * 2 powi ?e - ?q\<bar> = \<bar>of_int ?m - ?q / 2 powi ?e\<bar> * 2 powi ?e"
    using u by (simp add: abs_mult)
  also have "\<dots> \<le> 1 / 2 * 2 powi ?e"
    using round_scaled_near [OF assms(2), of n ?e] u by (intro mult_right_mono) simp_all
  finally show ?thesis by simp
qed

lemma pos_range:
  assumes "0 < n" "0 < d"
  shows "0 \<le> round_scaled n d (float_exponent n d)"
    and "round_scaled n d (float_exponent n d) \<le> 2 ^ 53"
proof -
  let ?l = "quotient_exponent n d"
  let ?e = "float_exponent n d"
  let ?q = "of_int n / of_int d :: rat"
  have u: "(0::rat) < 2 powi ?e" by (rule powi_pos)
  have "?l + 1 \<le> ?e + int 53" by (simp add: float_exponent_def)
  then have "(2::rat) powi (?l + 1) \<le> 2 powi (?e + int 53)"
    by (intro power_int_increasing) simp_all
  with quotient_exponent_upper [OF assms] have "?q < 2 powi ?e * 2 ^ 53"
    by (simp only: powi_shift)
  then have "?q < 2 ^ 53 * 2 powi ?e" by (simp only: mult.commute)
  then have "?q / 2 powi ?e < 2 ^ 53"
    by (simp only: pos_divide_less_eq [OF u])
  then have "?q / 2 powi ?e < of_int (2 ^ 53)" by simp
  from round_scaled_range [OF assms(2) _ this] assms(1)
  show "0 \<le> round_scaled n d ?e" and "round_scaled n d ?e \<le> 2 ^ 53"
    by simp_all
qed

lemma pos_half:
  assumes "0 < n" "0 < d"
  shows "(2::rat) powi float_exponent n d / 2 \<le> max (of_int n / of_int d / 2 ^ 53) (1 / 2 ^ 1075)"
proof -
  let ?l = "quotient_exponent n d"
  let ?e = "float_exponent n d"
  let ?q = "of_int n / of_int d :: rat"
  from float_exponent_cases [of n d] show ?thesis
  proof
    assume "?e = ?l - 52 \<and> - 1074 \<le> ?e"
    then have "?l = ?e + int 52" by simp
    then have "(2::rat) powi ?l = 2 powi ?e * 2 ^ 52" by (simp only: powi_shift)
    with quotient_exponent_lower [OF assms] have "(2::rat) powi ?e * 2 ^ 52 \<le> ?q" by simp
    then have "(2::rat) powi ?e / 2 \<le> ?q / 2 ^ 53" by simp
    then show ?thesis by (simp only: le_max_iff_disj) blast
  next
    assume "?e = - 1074 \<and> ?l - 52 \<le> - 1074"
    then have "(2::rat) powi ?e = 1 / 2 ^ 1074" by (simp add: powi_neg)
    then have "(2::rat) powi ?e / 2 = 1 / 2 ^ 1075" by simp
    then show ?thesis by (simp only: le_max_iff_disj) simp
  qed
qed

lemma pos_nearest:
  assumes "0 < n" "0 < d" "\<bar>M\<bar> < 2 ^ 53" "- 1074 \<le> E"
  shows "\<bar>of_int (round_scaled n d (float_exponent n d)) * 2 powi float_exponent n d
           - (of_int n / of_int d :: rat)\<bar> \<le> \<bar>of_int M * 2 powi E - of_int n / of_int d\<bar>"
proof (cases "float_exponent n d \<le> E")
  case True
  let ?e = "float_exponent n d"
  let ?m = "round_scaled n d ?e"
  let ?q = "of_int n / of_int d :: rat"
  have u: "(0::rat) < 2 powi ?e" by (rule powi_pos)
  define k where "k = M * 2 ^ nat (E - ?e)"
  have "?e + int (nat (E - ?e)) = E" using True by simp
  with powi_shift [of ?e "nat (E - ?e)"]
  have "(2::rat) powi E = 2 powi ?e * 2 ^ nat (E - ?e)" by simp
  then have x: "(of_int M :: rat) * 2 powi E = of_int k * 2 powi ?e" by (simp add: k_def)
  have scale: "\<And>j. \<bar>of_int j * 2 powi ?e - ?q\<bar> = \<bar>of_int j - ?q / 2 powi ?e\<bar> * 2 powi ?e"
  proof -
    fix j :: int
    have "(of_int j * 2 powi ?e - ?q) = (of_int j - ?q / 2 powi ?e) * 2 powi ?e"
      using u by (simp add: field_simps)
    then show "\<bar>of_int j * 2 powi ?e - ?q\<bar> = \<bar>of_int j - ?q / 2 powi ?e\<bar> * 2 powi ?e"
      using u by (simp add: abs_mult)
  qed
  have "\<bar>of_int ?m - ?q / 2 powi ?e\<bar> \<le> \<bar>of_int k - ?q / 2 powi ?e\<bar>"
    by (rule nearest_int [OF round_scaled_near [OF assms(2)]])
  then have "\<bar>of_int ?m - ?q / 2 powi ?e\<bar> * 2 powi ?e \<le> \<bar>of_int k - ?q / 2 powi ?e\<bar> * 2 powi ?e"
    using u by (intro mult_right_mono) simp_all
  then show ?thesis by (simp only: scale x)
next
  case False
  let ?l = "quotient_exponent n d"
  let ?e = "float_exponent n d"
  let ?m = "round_scaled n d ?e"
  let ?q = "of_int n / of_int d :: rat"
  have u: "(0::rat) < 2 powi ?e" by (rule powi_pos)
  from False assms(4) float_exponent_cases [of n d] have l: "?l = ?e + int 52" by auto
  then have "(2::rat) powi ?l = 2 powi ?e * 2 ^ 52" by (simp only: powi_shift)
  with quotient_exponent_lower [OF assms(1,2)] have q: "(2::rat) powi ?e * 2 ^ 52 \<le> ?q" by simp
  from False have "E + 1 \<le> ?e" by simp
  then have "(2::rat) powi (E + 1) \<le> 2 powi ?e"
    by (intro power_int_increasing) simp_all
  moreover have "(2::rat) powi (E + 1) = 2 powi E * 2" using powi_shift [of E 1] by simp
  ultimately have E: "(2::rat) powi E \<le> 2 powi ?e / 2" by simp
  have "M \<le> 2 ^ 53 - 1" using assms(3) by simp
  then have "(of_int M :: rat) \<le> of_int (2 ^ 53 - 1)" by (simp only: of_int_le_iff)
  then have M: "(of_int M :: rat) \<le> 2 ^ 53 - 1" by simp
  have pe: "(0::rat) < 2 powi E" by (rule powi_pos)
  have "of_int M * (2::rat) powi E \<le> (2 ^ 53 - 1) * 2 powi E"
    using M pe by (intro mult_right_mono) simp_all
  also have "\<dots> \<le> (2 ^ 53 - 1) * (2 powi ?e / 2)"
    using E by (intro mult_left_mono) simp_all
  also have "\<dots> = 2 powi ?e * 2 ^ 52 - 2 powi ?e / 2" by (simp add: algebra_simps)
  also have "\<dots> \<le> ?q - 2 powi ?e / 2" using q by (rule diff_right_mono)
  finally have "2 powi ?e / 2 \<le> ?q - of_int M * 2 powi E" by linarith
  then have "2 powi ?e / 2 \<le> \<bar>of_int M * 2 powi E - ?q\<bar>" by linarith
  with pos_near [OF assms(1,2)] show ?thesis by linarith
qed

lemma quotient_sign:
  "(of_int a / of_int b :: rat)
     = (if (a < 0) \<noteq> (b < 0) then - (of_int \<bar>a\<bar> / of_int \<bar>b\<bar>) else of_int \<bar>a\<bar> / of_int \<bar>b\<bar>)"
  by (cases "a < 0"; cases "b < 0") (simp_all add: abs_if)

lemma true_div_form:
  assumes "a \<noteq> 0" "b \<noteq> 0" "true_div a b = Inr (Finite m e)"
  shows "\<exists>m1. 0 \<le> m1 \<and> m1 < 2 ^ 53 \<and> - 1074 \<le> e \<and> e \<le> 971
           \<and> m = (if (a < 0) \<noteq> (b < 0) then - m1 else m1)
           \<and> (of_int m1 * 2 powi e :: rat)
               = of_int (round_scaled \<bar>a\<bar> \<bar>b\<bar> (float_exponent \<bar>a\<bar> \<bar>b\<bar>))
                   * 2 powi float_exponent \<bar>a\<bar> \<bar>b\<bar>"
proof -
  define e0 where "e0 = float_exponent \<bar>a\<bar> \<bar>b\<bar>"
  define m0 where "m0 = round_scaled \<bar>a\<bar> \<bar>b\<bar> e0"
  define m1 where "m1 = (if m0 = 2 ^ 53 then 2 ^ 52 else m0)"
  define e1 where "e1 = (if m0 = 2 ^ 53 then e0 + 1 else e0)"
  have pos: "0 < \<bar>a\<bar>" "0 < \<bar>b\<bar>" using assms(1,2) by simp_all
  have run: "true_div a b = (if 971 < e1 then Inl OverflowError
                else Inr (Finite (if (a < 0) \<noteq> (b < 0) then - m1 else m1) e1))"
    using assms(1,2) by (simp add: true_div_def Let_def e0_def m0_def m1_def e1_def)
  with assms(3) have fin: "e1 \<le> 971" and e: "e = e1"
    and m: "m = (if (a < 0) \<noteq> (b < 0) then - m1 else m1)"
    by (auto split: if_splits)
  from pos_range [OF pos] have m0: "0 \<le> m0" "m0 \<le> 2 ^ 53" by (simp_all add: m0_def e0_def)
  then have m1: "0 \<le> m1" "m1 < 2 ^ 53" by (auto simp: m1_def)
  have "- 1074 \<le> e0" by (simp add: e0_def float_exponent_def)
  then have low: "- 1074 \<le> e1" by (simp add: e1_def)
  have "(of_int m1 * 2 powi e1 :: rat) = of_int m0 * 2 powi e0"
  proof (cases "m0 = 2 ^ 53")
    case True
    have "(2::rat) powi (e0 + 1) = 2 powi e0 * 2" using powi_shift [of e0 1] by simp
    with True show ?thesis by (simp add: m1_def e1_def)
  next
    case False
    then show ?thesis by (simp add: m1_def e1_def)
  qed
  with m1 low fin e m show ?thesis
    unfolding m0_def e0_def by blast
qed

lemma true_div_zero: "b \<noteq> 0 \<Longrightarrow> true_div 0 b = Inr (Finite 0 0)"
  by (simp add: true_div_def)

lemma true_div_is_double:
  assumes "b \<noteq> 0" "true_div a b = Inr (Finite m e)"
  shows "is_double m e"
proof (cases "a = 0")
  case True
  with assms show ?thesis by (simp add: true_div_zero is_double_def)
next
  case False
  from true_div_form [OF False assms] show ?thesis
    by (auto simp: is_double_def)
qed

lemma true_div_accuracy:
  assumes "b \<noteq> 0" "true_div a b = Inr (Finite m e)"
  shows "\<bar>float_value m e - of_int a / of_int b\<bar>
           \<le> max (\<bar>of_int a / of_int b\<bar> / 2 ^ 53) (1 / 2 ^ 1075)"
proof (cases "a = 0")
  case True
  with assms show ?thesis by (simp add: true_div_zero float_value_powi)
next
  case False
  let ?q = "of_int \<bar>a\<bar> / of_int \<bar>b\<bar> :: rat"
  have pos: "0 < \<bar>a\<bar>" "0 < \<bar>b\<bar>" using False assms(1) by simp_all
  have q: "0 < ?q" using pos by simp
  from true_div_form [OF False assms] obtain m1 where
    m: "m = (if (a < 0) \<noteq> (b < 0) then - m1 else m1)" and
    v: "(of_int m1 * 2 powi e :: rat)
          = of_int (round_scaled \<bar>a\<bar> \<bar>b\<bar> (float_exponent \<bar>a\<bar> \<bar>b\<bar>))
              * 2 powi float_exponent \<bar>a\<bar> \<bar>b\<bar>"
    by blast
  from pos_near [OF pos]
  have "\<bar>of_int m1 * 2 powi e - ?q\<bar> \<le> 2 powi float_exponent \<bar>a\<bar> \<bar>b\<bar> / 2"
    by (simp only: v)
  from this pos_half [OF pos]
  have "\<bar>of_int m1 * 2 powi e - ?q\<bar> \<le> max (?q / 2 ^ 53) (1 / 2 ^ 1075)"
    by (rule order_trans)
  moreover have "\<bar>float_value m e - of_int a / of_int b\<bar> = \<bar>of_int m1 * 2 powi e - ?q\<bar>"
  proof (cases "(a < 0) \<noteq> (b < 0)")
    case True
    then have "float_value m e - of_int a / of_int b = - (of_int m1 * 2 powi e - ?q)"
      by (simp only: float_value_powi m quotient_sign [of a b]) simp
    then show ?thesis by (simp only: abs_minus_cancel)
  next
    case False
    then have "float_value m e - of_int a / of_int b = of_int m1 * 2 powi e - ?q"
      by (simp only: float_value_powi m quotient_sign [of a b]) simp
    then show ?thesis by simp
  qed
  moreover have "\<bar>(of_int a / of_int b :: rat)\<bar> = ?q"
    by (simp add: abs_divide)
  ultimately show ?thesis by simp
qed

lemma true_div_nearest:
  assumes "b \<noteq> 0" "true_div a b = Inr (Finite m e)" "\<bar>M\<bar> < 2 ^ 53" "- 1074 \<le> E"
  shows "\<bar>float_value m e - of_int a / of_int b\<bar> \<le> \<bar>float_value M E - of_int a / of_int b\<bar>"
proof (cases "a = 0")
  case True
  with assms show ?thesis by (simp add: true_div_zero float_value_powi)
next
  case False
  let ?q = "of_int \<bar>a\<bar> / of_int \<bar>b\<bar> :: rat"
  have pos: "0 < \<bar>a\<bar>" "0 < \<bar>b\<bar>" using False assms(1) by simp_all
  from true_div_form [OF False assms(1,2)] obtain m1 where
    m: "m = (if (a < 0) \<noteq> (b < 0) then - m1 else m1)" and
    v: "(of_int m1 * 2 powi e :: rat)
          = of_int (round_scaled \<bar>a\<bar> \<bar>b\<bar> (float_exponent \<bar>a\<bar> \<bar>b\<bar>))
              * 2 powi float_exponent \<bar>a\<bar> \<bar>b\<bar>"
    by blast
  show ?thesis
  proof (cases "(a < 0) \<noteq> (b < 0)")
    case True
    have "\<bar>- M\<bar> < 2 ^ 53" using assms(3) by simp
    from pos_nearest [OF pos this assms(4)]
    have "\<bar>of_int m1 * 2 powi e - ?q\<bar> \<le> \<bar>of_int (- M) * 2 powi E - ?q\<bar>"
      by (simp only: v)
    moreover from True have "float_value m e - of_int a / of_int b = - (of_int m1 * 2 powi e - ?q)"
      by (simp only: float_value_powi m quotient_sign [of a b]) simp
    moreover from True have "float_value M E - of_int a / of_int b = - (of_int (- M) * 2 powi E - ?q)"
      by (simp only: float_value_powi quotient_sign [of a b]) simp
    ultimately show ?thesis by (simp only: abs_minus_cancel)
  next
    case False
    from pos_nearest [OF pos assms(3,4)]
    have "\<bar>of_int m1 * 2 powi e - ?q\<bar> \<le> \<bar>of_int M * 2 powi E - ?q\<bar>"
      by (simp only: v)
    moreover from False have "float_value m e - of_int a / of_int b = of_int m1 * 2 powi e - ?q"
      by (simp only: float_value_powi m quotient_sign [of a b]) simp
    moreover from False have "float_value M E - of_int a / of_int b = of_int M * 2 powi E - ?q"
      by (simp only: float_value_powi quotient_sign [of a b]) simp
    ultimately show ?thesis by simp
  qed
qed

lemma powi_less_exponent: "(2::rat) powi x < 2 powi y \<Longrightarrow> x < y"
proof (rule ccontr)
  assume less: "(2::rat) powi x < 2 powi y" and "\<not> x < y"
  then have "y \<le> x" by simp
  then have "(2::rat) powi y \<le> 2 powi x" by (intro power_int_increasing) simp_all
  with less show False by simp
qed

lemma true_div_finite:
  assumes "b \<noteq> 0" "\<bar>a\<bar> < 2 ^ 1023 * \<bar>b\<bar>"
  shows "\<exists>m e. true_div a b = Inr (Finite m e)"
proof (cases "a = 0")
  case True
  with assms(1) show ?thesis by (simp add: true_div_zero)
next
  case False
  define e0 where "e0 = float_exponent \<bar>a\<bar> \<bar>b\<bar>"
  define m0 where "m0 = round_scaled \<bar>a\<bar> \<bar>b\<bar> e0"
  define e1 where "e1 = (if m0 = 2 ^ 53 then e0 + 1 else e0)"
  have pos: "0 < \<bar>a\<bar>" "0 < \<bar>b\<bar>" using False assms(1) by simp_all
  have "(of_int \<bar>a\<bar> :: rat) < of_int (2 ^ 1023 * \<bar>b\<bar>)"
    using assms(2) by (simp only: of_int_less_iff)
  then have "(of_int \<bar>a\<bar> / of_int \<bar>b\<bar> :: rat) < 2 ^ 1023"
    using pos by (simp add: pos_divide_less_eq)
  with quotient_exponent_lower [OF pos]
  have "(2::rat) powi quotient_exponent \<bar>a\<bar> \<bar>b\<bar> < 2 ^ 1023" by (rule le_less_trans)
  moreover have "(2::rat) ^ 1023 = 2 powi (int 1023)" by (simp only: power_int_of_nat)
  ultimately have "quotient_exponent \<bar>a\<bar> \<bar>b\<bar> < int 1023"
    by (simp only: powi_less_exponent)
  then have "e0 \<le> 970" by (simp add: e0_def float_exponent_def)
  then have "\<not> 971 < e1" by (simp add: e1_def)
  moreover have "true_div a b = (if 971 < e1 then Inl OverflowError
      else Inr (Finite (if (a < 0) \<noteq> (b < 0) then - (if m0 = 2 ^ 53 then 2 ^ 52 else m0)
                        else (if m0 = 2 ^ 53 then 2 ^ 52 else m0)) e1))"
    using assms(1) False by (simp add: true_div_def Let_def e0_def m0_def e1_def)
  ultimately show ?thesis by simp
qed

lemma true_div_overflow:
  assumes "b \<noteq> 0" "2 ^ 1024 * \<bar>b\<bar> \<le> \<bar>a\<bar>"
  shows "true_div a b = Inl OverflowError"
proof -
  define e0 where "e0 = float_exponent \<bar>a\<bar> \<bar>b\<bar>"
  define m0 where "m0 = round_scaled \<bar>a\<bar> \<bar>b\<bar> e0"
  define e1 where "e1 = (if m0 = 2 ^ 53 then e0 + 1 else e0)"
  have b: "0 < \<bar>b\<bar>" using assms(1) by simp
  have "(0::int) < 2 ^ 1024 * \<bar>b\<bar>" using b by simp
  with assms(2) have a: "0 < \<bar>a\<bar>" by linarith
  then have a0: "a \<noteq> 0" by simp
  have "(of_int (2 ^ 1024 * \<bar>b\<bar>) :: rat) \<le> of_int \<bar>a\<bar>"
    using assms(2) by (simp only: of_int_le_iff)
  then have "(2::rat) ^ 1024 \<le> of_int \<bar>a\<bar> / of_int \<bar>b\<bar>"
    using b by (simp add: pos_le_divide_eq)
  from this quotient_exponent_upper [OF a b]
  have "(2::rat) ^ 1024 < 2 powi (quotient_exponent \<bar>a\<bar> \<bar>b\<bar> + 1)" by (rule le_less_trans)
  moreover have "(2::rat) ^ 1024 = 2 powi (int 1024)" by (simp only: power_int_of_nat)
  ultimately have "int 1024 < quotient_exponent \<bar>a\<bar> \<bar>b\<bar> + 1"
    by (simp only: powi_less_exponent)
  then have "972 \<le> e0" by (simp add: e0_def float_exponent_def)
  then have "971 < e1" by (simp add: e1_def)
  moreover have "true_div a b = (if 971 < e1 then Inl OverflowError
      else Inr (Finite (if (a < 0) \<noteq> (b < 0) then - (if m0 = 2 ^ 53 then 2 ^ 52 else m0)
                        else (if m0 = 2 ^ 53 then 2 ^ 52 else m0)) e1))"
    using assms(1) a0 by (simp add: true_div_def Let_def e0_def m0_def e1_def)
  ultimately show ?thesis by simp
qed

section \<open>Counting lemmas\<close>

lemma one_match:
  "distinct (map f ks) \<Longrightarrow> y \<in> f ` set ks \<Longrightarrow> length (filter (\<lambda>k. f k = y) ks) = 1"
proof (induction ks)
  case Nil
  then show ?case by simp
next
  case (Cons k ks)
  show ?case
  proof (cases "f k = y")
    case True
    from Cons.prems(1) have nk: "f k \<notin> f ` set ks" by simp
    have "\<forall>k'\<in>set ks. f k' \<noteq> y"
    proof (intro ballI notI)
      fix k' assume "k' \<in> set ks" and "f k' = y"
      then have "f k \<in> f ` set ks" using True by (metis imageI)
      with nk show False ..
    qed
    then have "filter (\<lambda>k. f k = y) ks = []" by (simp add: filter_empty_conv)
    with True show ?thesis by simp
  next
    case False
    with Cons show ?thesis by auto
  qed
qed

lemma indicator_sum:
  "sum_list (map (\<lambda>k. if P k then 1 else 0) ks) = length (filter P ks)"
  by (induction ks) auto

lemma sizes_sum:
  assumes "distinct (map f ks)" and "\<forall>a\<in>set xs. g a \<in> f ` set ks"
  shows "sum_list (map (\<lambda>k. length (filter (\<lambda>a. g a = f k) xs)) ks) = length xs"
  using assms(2)
proof (induction xs)
  case Nil
  show ?case by simp
next
  case (Cons a xs)
  have "sum_list (map (\<lambda>k. length (filter (\<lambda>a. g a = f k) (a # xs))) ks)
      = sum_list (map (\<lambda>k. (if f k = g a then 1 else 0) + length (filter (\<lambda>a. g a = f k) xs)) ks)"
    by (rule arg_cong [where f = sum_list], rule map_cong) auto
  also have "\<dots> = sum_list (map (\<lambda>k. if f k = g a then 1 else 0) ks)
                  + sum_list (map (\<lambda>k. length (filter (\<lambda>a. g a = f k) xs)) ks)"
    by (rule sum_list_addf)
  also have "\<dots> = length (filter (\<lambda>k. f k = g a) ks) + length xs"
    using Cons by (simp add: indicator_sum)
  also have "\<dots> = length (a # xs)"
    using one_match [OF assms(1), of "g a"] Cons.prems by simp
  finally show ?case .
qed

lemma nonempty_count:
  assumes "distinct (map f ks)" and "T \<subseteq> f ` set ks"
  shows "length (filter (\<lambda>k. f k \<in> T) ks) = card T"
proof -
  have d: "distinct (map f (filter (\<lambda>k. f k \<in> T) ks))"
    using assms(1) by (rule distinct_map_filter)
  have "set (map f (filter (\<lambda>k. f k \<in> T) ks)) = T"
    using assms(2) by auto
  with distinct_card [OF d] show ?thesis by simp
qed

lemma dict_key_str: "dict_key k = dict_key (PStr s) \<longleftrightarrow> k = PStr s"
  by (cases k) (auto simp: dict_key_def split: pyfloat.splits)

lemma build_categories_closed:
  assumes "\<forall>a\<in>set articles. hashable (cat_of a)"
  shows "build_categories articles
           = Inr (map (\<lambda>k. (k, sort_key (\<lambda>x. - score x)
                                  (filter (\<lambda>a. dict_key (cat_of a) = dict_key k) articles)))
                    (bucket_keys articles))"
  by (simp add: build_categories_def grouped_closed [OF assms] o_def case_prod_beta)

lemma build_categories_unhashable:
  "a \<in> set articles \<Longrightarrow> \<not> hashable (cat_of a) \<Longrightarrow> group_loop articles d = Inl TypeError"
proof (induction articles arbitrary: d)
  case Nil
  then show ?case by simp
next
  case (Cons x xs)
  show ?case
  proof (cases "hashable (cat_of x)")
    case True
    with Cons.prems have "a \<in> set xs" by auto
    from Cons.IH [OF this Cons.prems(2)] True show ?thesis
      by (simp add: add_article_def Let_def)
  next
    case False
    then show ?thesis by (simp add: add_article_def Let_def)
  qed
qed

section \<open>The average\<close>

lemma sum_list_abs_bound:
  fixes xs :: "int list"
  shows "\<forall>x\<in>set xs. \<bar>x\<bar> \<le> c \<Longrightarrow> \<bar>sum_list xs\<bar> \<le> c * int (length xs)"
proof (induction xs)
  case Nil
  show ?case by simp
next
  case (Cons x xs)
  then have "\<bar>x\<bar> \<le> c" and "\<bar>sum_list xs\<bar> \<le> c * int (length xs)" by simp_all
  moreover have "c * int (length (x # xs)) = c + c * int (length xs)" by (simp add: algebra_simps)
  ultimately show ?case by simp
qed

lemma score_sum_bound:
  assumes "articles \<noteq> []" and "\<forall>a\<in>set articles. \<bar>score a\<bar> < 2 ^ 1023"
  shows "\<bar>sum_list (map score articles)\<bar> < 2 ^ 1023 * \<bar>int (length articles)\<bar>"
proof -
  have "\<forall>x\<in>set (map score articles). \<bar>x\<bar> \<le> 2 ^ 1023 - 1"
    using assms(2) by auto
  from sum_list_abs_bound [OF this]
  have "\<bar>sum_list (map score articles)\<bar> \<le> (2 ^ 1023 - 1) * int (length articles)"
    by simp
  also have "\<dots> = 2 ^ 1023 * int (length articles) - int (length articles)"
    by (simp only: left_diff_distrib mult_1)
  also have "\<dots> < 2 ^ 1023 * int (length articles)"
    using assms(1) by simp
  finally show ?thesis by simp
qed

lemma mean_quotient:
  "arithmetic_mean (map score articles)
     = of_int (sum_list (map score articles)) / of_int (int (length articles))"
  by (simp add: arithmetic_mean_def)

lemma average_float:
  assumes "articles \<noteq> []" and "\<forall>a\<in>set articles. \<bar>score a\<bar> < 2 ^ 1023"
  shows "\<exists>m e. average articles = Inr (PFloat (Finite m e))
           \<and> true_div (sum_list (map score articles)) (int (length articles)) = Inr (Finite m e)"
proof -
  have n: "int (length articles) \<noteq> 0" using assms(1) by simp
  from true_div_finite [OF n score_sum_bound [OF assms]] obtain m e where
    "true_div (sum_list (map score articles)) (int (length articles)) = Inr (Finite m e)"
    by blast
  with assms(1) show ?thesis by (simp add: average_def)
qed

lemma average_nearest_mean:
  assumes "articles \<noteq> []" and "average articles = Inr (PFloat (Finite m e))"
  shows "is_double m e"
    and "\<bar>float_value m e - arithmetic_mean (map score articles)\<bar>
           \<le> max (\<bar>arithmetic_mean (map score articles)\<bar> / 2 ^ 53) (1 / 2 ^ 1075)"
    and "is_double M E \<Longrightarrow> \<bar>float_value m e - arithmetic_mean (map score articles)\<bar>
           \<le> \<bar>float_value M E - arithmetic_mean (map score articles)\<bar>"
proof -
  have n: "int (length articles) \<noteq> 0" using assms(1) by simp
  from assms have run:
    "true_div (sum_list (map score articles)) (int (length articles)) = Inr (Finite m e)"
    by (simp add: average_def split: sum.splits)
  show "is_double m e"
    by (rule true_div_is_double [OF n run])
  show "\<bar>float_value m e - arithmetic_mean (map score articles)\<bar>
           \<le> max (\<bar>arithmetic_mean (map score articles)\<bar> / 2 ^ 53) (1 / 2 ^ 1075)"
    using true_div_accuracy [OF n run] by (simp only: mean_quotient)
  assume "is_double M E"
  then have "\<bar>M\<bar> < 2 ^ 53" and "- 1074 \<le> E" by (simp_all add: is_double_def)
  from true_div_nearest [OF n run this]
  show "\<bar>float_value m e - arithmetic_mean (map score articles)\<bar>
           \<le> \<bar>float_value M E - arithmetic_mean (map score articles)\<bar>"
    by (simp only: mean_quotient)
qed

lemma generate_report_fields:
  assumes "build_categories articles = Inr cs" and "average articles = Inr avg"
  shows "generate_report articles
           = Inr \<lparr> categories = cs, total_articles = length articles, avg_hot_score = avg,
                   total_sources = card (set (map source_name articles)),
                   total_categories = length (filter (\<lambda>kv. snd kv \<noteq> []) cs) \<rparr>"
  using assms by (simp add: generate_report_def case_prod_unfold)

section \<open>Sample reports\<close>

lemma sample_cats:
  "cat_of scored1 = PStr [78, 69, 87]" "cat_of scored2 = PStr fallback_category"
  "cat_of scored3 = PStr [78, 69, 87]"
  by (simp_all add: cat_of_def scored1_def scored2_def scored3_def art1_def art2_def blank_def)

lemma sample_scores: "score scored1 = 50" "score scored2 = 90" "score scored3 = 50"
  by (simp_all add: score_def scored1_def scored2_def scored3_def)

lemma sample_sources:
  "source_name scored1 = [83, 49]" "source_name scored2 = [83, 50]" "source_name scored3 = [83, 50]"
  by (simp_all add: source_name_def scored1_def scored2_def scored3_def art1_def art2_def blank_def)

lemma sample_hashable: "\<forall>a\<in>set [scored1, scored2, scored3]. hashable (cat_of a)"
  by (simp add: sample_cats hashable_def)

lemma sample_bounded: "\<forall>a\<in>set [scored1, scored2, scored3]. \<bar>score a\<bar> < 2 ^ 1023"
  by (simp add: sample_scores)

lemma sample_keys:
  "bucket_keys [scored1, scored2, scored3] = map PStr category_order @ [PStr [78, 69, 87]]"
  by (simp add: bucket_keys_def sample_cats category_order_def dict_key_def fallback_category_def)

lemma sample_categories:
  "build_categories [scored1, scored2, scored3]
     = Inr [(PStr [37325, 22823, 26032, 38395], []),
                (PStr [34892, 19994, 21160, 24577], [scored2]),
                (PStr [20135, 21697, 21457, 24067], []),
                (PStr [25216, 26415, 24178, 36135], []),
                (PStr [35266, 28857, 35780, 35770], []),
                (PStr [78, 69, 87], [scored1, scored3])]"
  unfolding build_categories_closed [OF sample_hashable] sample_keys
  by (simp add: sample_cats sample_scores category_order_def dict_key_def fallback_category_def)

lemma bitlen_63: "bitlen 63 = 6"
  by (simp add: compute_bitlen)

lemma true_div_190_3: "true_div 190 3 = Inr (Finite 8913374262504107 (- 47))"
  by (simp add: true_div_def float_exponent_def quotient_exponent_def round_scaled_def
      round_half_even_def Let_def bitlen_63)

lemma sample_average:
  "average [scored1, scored2, scored3] = Inr (PFloat (Finite 8913374262504107 (- 47)))"
  by (simp add: average_def sample_scores true_div_190_3)

lemma sample_mean: "arithmetic_mean (map score [scored1, scored2, scored3]) = 190 / 3"
  by (simp add: arithmetic_mean_def sample_scores)

lemma sample_report:
  "generate_report [scored1, scored2, scored3]
     = Inr \<lparr> categories =
               [(PStr [37325, 22823, 26032, 38395], []),
                (PStr [34892, 19994, 21160, 24577], [scored2]),
                (PStr [20135, 21697, 21457, 24067], []),
                (PStr [25216, 26415, 24178, 36135], []),
                (PStr [35266, 28857, 35780, 35770], []),
                (PStr [78, 69, 87], [scored1, scored3])],
             total_articles = 3, avg_hot_score = PFloat (Finite 8913374262504107 (- 47)),
             total_sources = 2, total_categories = 2 \<rparr>"
  unfolding generate_report_fields [OF sample_categories sample_average]
  by (simp add: sample_sources)

lemma strip_reply_list: "strip reply_list = reply_list"
  by (simp add: strip_def py_isspace_def reply_list_def)

lemma object_reply_list: "json_object_text reply_list"
  by (simp add: json_object_text_def strip_reply_list) (simp add: reply_list_def)

lemma loads_reply_list:
  "list_loads (clean_code_block (strip reply_list)) = Inr (PDict [(k_category, PList [PStr [88]])])"
proof -
  have "clean_code_block (strip reply_list) = reply_list"
    using clean_bare [OF object_reply_list] by (simp only: strip_reply_list)
  then show ?thesis
    by (simp add: list_loads_def)
qed

lemma validate_art1_list:
  "validate_result sample_int_of_str art1 (PDict [(k_category, PList [PStr [88]])])
     = Inr \<lparr> an_category = PList [PStr [88]], an_summary = PStr [110, 101, 119],
             an_hot_score = 50, an_keywords = PList [], an_reasoning = PStr [] \<rparr>"
  by (simp add: validate_result_def and_then_def py_get_def py_slice_def py_int_def
      k_category_def k_summary_def k_hot_score_def k_keywords_def k_reasoning_def
      art1_def blank_def)

lemma analyze_list_art1:
  "analyze_article list_env sample_key art1 0
     = (Inr \<lparr> an_category = PList [PStr [88]], an_summary = PStr [110, 101, 119],
              an_hot_score = 50, an_keywords = PList [], an_reasoning = PStr [] \<rparr>, Suc 0)"
  by (simp add: analyze_article_def key_set prompt_art1 list_env_def loads_reply_list
      validate_art1_list)

lemma process_all_list_art1: "process_all list_env sample_key [art1] 0 = Inr ([listed1], Suc 0)"
  by (simp add: process_all_def key_set process_all_loop.simps process_batch_def batch_size_def
      title_art1 analyze_list_art1 listed1_def)

lemma cat_of_listed1: "cat_of listed1 = PList [PStr [88]]"
  by (simp add: cat_of_def listed1_def article_update_def)

lemma group_listed1: "group_loop [listed1] d = Inl TypeError"
  by (rule build_categories_unhashable [of listed1]) (simp_all add: cat_of_listed1 hashable_def)

lemma categories_listed1: "build_categories [listed1] = Inl TypeError"
  unfolding build_categories_def group_listed1 by simp

lemma score_huge: "score huge = 2 ^ 1024"
  by (simp add: score_def huge_def)

lemma categories_huge:
  "build_categories [huge]
     = Inr (map (\<lambda>k. (k, sort_key (\<lambda>x. - score x)
                            (filter (\<lambda>a. dict_key (cat_of a) = dict_key k) [huge])))
              (bucket_keys [huge]))"
  by (rule build_categories_closed) (simp add: cat_of_def huge_def blank_def hashable_def)

lemma average_huge: "average [huge] = Inl OverflowError"
proof -
  have "true_div (2 ^ 1024) 1 = Inl OverflowError"
    by (rule true_div_overflow) simp_all
  then show ?thesis by (simp add: average_def score_huge)
qed

section \<open>The claims about the report\<close>

text \<open>
  Claim C6. For an article list whose categories can be dict keys and whose scores are
  below \<open>2 ^ 1023\<close> in absolute value (a missing score counts 0), the report is computed and
  its statistics are: the total is the length of the list; the average is the integer 0
  for the empty list, and otherwise a float, which is a float nearest to the arithmetic
  mean of the scores: no float is nearer, it is the mean itself when the mean is a float,
  and it differs from the mean by at most the mean divided by \<open>2 ^ 53\<close> (or by \<open>2 ^ -1075\<close>
  if that is more); the source count is the number of distinct source names (a missing
  one counts as the empty name); the category count is the number of buckets that hold an
  article, which is the number of distinct categories present.
\<close>

theorem report_statistics:
  assumes "\<forall>a\<in>set articles. hashable (cat_of a)"
    and "\<forall>a\<in>set articles. \<bar>score a\<bar> < 2 ^ 1023"
  shows "\<exists>r. generate_report articles = Inr r
     \<and> total_articles r = length articles
     \<and> (articles = [] \<longrightarrow> avg_hot_score r = PInt 0)
     \<and> (articles \<noteq> [] \<longrightarrow>
          (\<exists>m e. avg_hot_score r = PFloat (Finite m e) \<and> is_double m e
             \<and> \<bar>float_value m e - arithmetic_mean (map score articles)\<bar>
                 \<le> max (\<bar>arithmetic_mean (map score articles)\<bar> / 2 ^ 53) (1 / 2 ^ 1075)
             \<and> (\<forall>M E. is_double M E \<longrightarrow>
                   \<bar>float_value m e - arithmetic_mean (map score articles)\<bar>
                     \<le> \<bar>float_value M E - arithmetic_mean (map score articles)\<bar>)
             \<and> (\<forall>M E. is_double M E \<and> float_value M E = arithmetic_mean (map score articles) \<longrightarrow>
                   float_value m e = arithmetic_mean (map score articles))))
     \<and> total_sources r = card (source_name ` set articles)
     \<and> total_categories r = length (filter (\<lambda>kv. snd kv \<noteq> []) (categories r))
     \<and> total_categories r = card (dict_key ` cat_of ` set articles)"
proof -
  define cs where "cs = map (\<lambda>k. (k, sort_key (\<lambda>x. - score x)
                                      (filter (\<lambda>a. dict_key (cat_of a) = dict_key k) articles)))
                          (bucket_keys articles)"
  have cats: "build_categories articles = Inr cs"
    unfolding cs_def by (rule build_categories_closed [OF assms(1)])
  have avg: "\<exists>avg. average articles = Inr avg
      \<and> (articles = [] \<longrightarrow> avg = PInt 0)
      \<and> (articles \<noteq> [] \<longrightarrow>
          (\<exists>m e. avg = PFloat (Finite m e) \<and> is_double m e
             \<and> \<bar>float_value m e - arithmetic_mean (map score articles)\<bar>
                 \<le> max (\<bar>arithmetic_mean (map score articles)\<bar> / 2 ^ 53) (1 / 2 ^ 1075)
             \<and> (\<forall>M E. is_double M E \<longrightarrow>
                   \<bar>float_value m e - arithmetic_mean (map score articles)\<bar>
                     \<le> \<bar>float_value M E - arithmetic_mean (map score articles)\<bar>)
             \<and> (\<forall>M E. is_double M E \<and> float_value M E = arithmetic_mean (map score articles) \<longrightarrow>
                   float_value m e = arithmetic_mean (map score articles))))"
  proof (cases "articles = []")
    case True
    then show ?thesis by (simp add: average_def)
  next
    case False
    from average_float [OF False assms(2)] obtain m e where
      run: "average articles = Inr (PFloat (Finite m e))" by blast
    note near = average_nearest_mean [OF False run]
    have exact: "\<forall>M E. is_double M E \<and> float_value M E = arithmetic_mean (map score articles) \<longrightarrow>
        float_value m e = arithmetic_mean (map score articles)"
    proof (intro allI impI)
      fix M E
      assume "is_double M E \<and> float_value M E = arithmetic_mean (map score articles)"
      then have "\<bar>float_value m e - arithmetic_mean (map score articles)\<bar> \<le> 0"
        using near(3) [of M E] by simp
      then show "float_value m e = arithmetic_mean (map score articles)" by simp
    qed
    from run near(1,2) near(3) exact False show ?thesis by blast
  qed
  then obtain avg where
    run: "average articles = Inr avg" and
    empty: "articles = [] \<longrightarrow> avg = PInt 0" and
    float: "articles \<noteq> [] \<longrightarrow>
          (\<exists>m e. avg = PFloat (Finite m e) \<and> is_double m e
             \<and> \<bar>float_value m e - arithmetic_mean (map score articles)\<bar>
                 \<le> max (\<bar>arithmetic_mean (map score articles)\<bar> / 2 ^ 53) (1 / 2 ^ 1075)
             \<and> (\<forall>M E. is_double M E \<longrightarrow>
                   \<bar>float_value m e - arithmetic_mean (map score articles)\<bar>
                     \<le> \<bar>float_value M E - arithmetic_mean (map score articles)\<bar>)
             \<and> (\<forall>M E. is_double M E \<and> float_value M E = arithmetic_mean (map score articles) \<longrightarrow>
                   float_value m e = arithmetic_mean (map score articles)))"
    by blast
  define r where "r = \<lparr> categories = cs, total_articles = length articles, avg_hot_score = avg,
                         total_sources = card (set (map source_name articles)),
                         total_categories = length (filter (\<lambda>kv. snd kv \<noteq> []) cs) \<rparr>"
  have report: "generate_report articles = Inr r"
    unfolding r_def by (rule generate_report_fields [OF cats run])
  have fields: "categories r = cs" "total_articles r = length articles" "avg_hot_score r = avg"
    "total_sources r = card (source_name ` set articles)"
    "total_categories r = length (filter (\<lambda>kv. snd kv \<noteq> []) (categories r))"
    by (simp_all add: r_def)
  let ?T = "dict_key ` cat_of ` set articles"
  have sub: "?T \<subseteq> dict_key ` set (bucket_keys articles)"
    using bucket_keys_cover by auto
  have ne: "\<And>k. (sort_key (\<lambda>x. - score x) (filter (\<lambda>a. dict_key (cat_of a) = dict_key k) articles) \<noteq> [])
                 \<longleftrightarrow> dict_key k \<in> ?T"
  proof -
    fix k
    have "(sort_key (\<lambda>x. - score x) (filter (\<lambda>a. dict_key (cat_of a) = dict_key k) articles) \<noteq> [])
        \<longleftrightarrow> set (sort_key (\<lambda>x. - score x) (filter (\<lambda>a. dict_key (cat_of a) = dict_key k) articles)) \<noteq> {}"
      by (simp only: set_empty)
    also have "\<dots> \<longleftrightarrow> (\<exists>a\<in>set articles. dict_key (cat_of a) = dict_key k)"
      by auto
    also have "\<dots> \<longleftrightarrow> dict_key k \<in> ?T"
    proof
      assume "\<exists>a\<in>set articles. dict_key (cat_of a) = dict_key k"
      then obtain a where a: "a \<in> set articles" "dict_key (cat_of a) = dict_key k" by blast
      from a(1) have "dict_key (cat_of a) \<in> ?T" by (intro imageI)
      with a(2) show "dict_key k \<in> ?T" by simp
    next
      assume "dict_key k \<in> ?T"
      then obtain a where "a \<in> set articles" "dict_key k = dict_key (cat_of a)"
        by (auto simp: image_iff)
      then show "\<exists>a\<in>set articles. dict_key (cat_of a) = dict_key k"
        by (intro bexI [of _ a]) simp_all
    qed
    finally show "(sort_key (\<lambda>x. - score x) (filter (\<lambda>a. dict_key (cat_of a) = dict_key k) articles) \<noteq> [])
                 \<longleftrightarrow> dict_key k \<in> ?T" .
  qed
  have "length (filter (\<lambda>kv. snd kv \<noteq> []) (categories r))
      = length (filter (\<lambda>k. dict_key k \<in> ?T) (bucket_keys articles))"
    by (simp add: fields(1) cs_def filter_map o_def ne)
  also have "\<dots> = card ?T"
    by (rule nonempty_count [OF bucket_keys_distinct sub])
  finally have distinct_cats: "total_categories r = card ?T"
    using fields(5) by simp
  from report fields(2,4,5) distinct_cats empty float show ?thesis
    unfolding fields(3) [symmetric] by blast
qed

theorem report_statistics_witness:
  "generate_report [scored1, scored2, scored3]
     = Inr \<lparr> categories =
               [(PStr [37325, 22823, 26032, 38395], []),
                (PStr [34892, 19994, 21160, 24577], [scored2]),
                (PStr [20135, 21697, 21457, 24067], []),
                (PStr [25216, 26415, 24178, 36135], []),
                (PStr [35266, 28857, 35780, 35770], []),
                (PStr [78, 69, 87], [scored1, scored3])],
             total_articles = 3, avg_hot_score = PFloat (Finite 8913374262504107 (- 47)),
             total_sources = 2, total_categories = 2 \<rparr>
   \<and> is_double 8913374262504107 (- 47)
   \<and> \<bar>float_value 8913374262504107 (- 47) - arithmetic_mean (map score [scored1, scored2, scored3])\<bar>
       \<le> max (\<bar>arithmetic_mean (map score [scored1, scored2, scored3])\<bar> / 2 ^ 53) (1 / 2 ^ 1075)
   \<and> card (source_name ` set [scored1, scored2, scored3]) = 2
   \<and> card (dict_key ` cat_of ` set [scored1, scored2, scored3]) = 2"
proof -
  from report_statistics [OF sample_hashable sample_bounded] obtain r where
    run: "generate_report [scored1, scored2, scored3] = Inr r" and
    float: "\<exists>m e. avg_hot_score r = PFloat (Finite m e) \<and> is_double m e
             \<and> \<bar>float_value m e - arithmetic_mean (map score [scored1, scored2, scored3])\<bar>
                 \<le> max (\<bar>arithmetic_mean (map score [scored1, scored2, scored3])\<bar> / 2 ^ 53)
                     (1 / 2 ^ 1075)" and
    sources: "total_sources r = card (source_name ` set [scored1, scored2, scored3])" and
    cats: "total_categories r = card (dict_key ` cat_of ` set [scored1, scored2, scored3])"
    by auto
  from run have r: "r = \<lparr> categories =
               [(PStr [37325, 22823, 26032, 38395], []),
                (PStr [34892, 19994, 21160, 24577], [scored2]),
                (PStr [20135, 21697, 21457, 24067], []),
                (PStr [25216, 26415, 24178, 36135], []),
                (PStr [35266, 28857, 35780, 35770], []),
                (PStr [78, 69, 87], [scored1, scored3])],
             total_articles = 3, avg_hot_score = PFloat (Finite 8913374262504107 (- 47)),
             total_sources = 2, total_categories = 2 \<rparr>"
    by (simp only: sample_report sum.inject)
  from float have "is_double 8913374262504107 (- 47)
      \<and> \<bar>float_value 8913374262504107 (- 47) - arithmetic_mean (map score [scored1, scored2, scored3])\<bar>
         \<le> max (\<bar>arithmetic_mean (map score [scored1, scored2, scored3])\<bar> / 2 ^ 53) (1 / 2 ^ 1075)"
    unfolding r by simp
  moreover from sources have "card (source_name ` set [scored1, scored2, scored3]) = 2"
    unfolding r by simp
  moreover from cats have "card (dict_key ` cat_of ` set [scored1, scored2, scored3]) = 2"
    unfolding r by simp
  ultimately show ?thesis
    using sample_report by simp
qed

text \<open>
  The claim as the specification states it fails for some article lists. The average of
  the scores 50, 90 and 50 is the float \<open>8913374262504107 * 2 ^ -47\<close>, which is above their
  arithmetic mean 190/3 by \<open>1 / (3 * 2 ^ 47)\<close>; an article with the score \<open>2 ^ 1024\<close> makes
  the division raise \<open>OverflowError\<close>; and the article \<open>listed1\<close>, whose category is a list,
  makes the grouping raise \<open>TypeError\<close>, so that no statistics are computed.
\<close>

theorem average_counterexample:
  "generate_report [scored1, scored2, scored3]
     = Inr \<lparr> categories =
               [(PStr [37325, 22823, 26032, 38395], []),
                (PStr [34892, 19994, 21160, 24577], [scored2]),
                (PStr [20135, 21697, 21457, 24067], []),
                (PStr [25216, 26415, 24178, 36135], []),
                (PStr [35266, 28857, 35780, 35770], []),
                (PStr [78, 69, 87], [scored1, scored3])],
             total_articles = 3, avg_hot_score = PFloat (Finite 8913374262504107 (- 47)),
             total_sources = 2, total_categories = 2 \<rparr>
   \<and> float_value 8913374262504107 (- 47) - arithmetic_mean (map score [scored1, scored2, scored3])
       = 1 / 422212465065984
   \<and> generate_report [huge] = Inl OverflowError
   \<and> generate_report [listed1] = Inl TypeError"
proof -
  have "float_value 8913374262504107 (- 47) - arithmetic_mean (map score [scored1, scored2, scored3])
      = 1 / 422212465065984"
    unfolding sample_mean by (simp add: float_value_def)
  moreover have "generate_report [huge] = Inl OverflowError"
    by (simp add: generate_report_def categories_huge average_huge)
  moreover have "generate_report [listed1] = Inl TypeError"
    unfolding generate_report_def categories_listed1 by simp
  ultimately show ?thesis
    using sample_report by simp
qed

text \<open>
  Claim C7. For an article list whose categories can be dict keys, the buckets are keyed by
  the five canonical categories in their order, followed by every other category where it
  first occurs; the keys are pairwise different; each bucket holds exactly the articles of
  its category (the fallback category for an article that has none), so every article is
  in exactly one bucket and the sizes add up to the number of articles; every bucket is in
  non-increasing order of score; and these buckets are the categories of the report, when
  one is computed.
\<close>

theorem category_partition:
  assumes "\<forall>a\<in>set articles. hashable (cat_of a)"
  shows "\<exists>cs. build_categories articles = Inr cs
     \<and> (\<forall>r. generate_report articles = Inr r \<longrightarrow> categories r = cs)
     \<and> map fst cs = bucket_keys articles
     \<and> take 5 (map fst cs) = map PStr category_order
     \<and> distinct (map (\<lambda>kv. dict_key (fst kv)) cs)
     \<and> (\<forall>kv\<in>set cs.
           mset (snd kv) = filter_mset (\<lambda>a. dict_key (cat_of a) = dict_key (fst kv)) (mset articles))
     \<and> (\<forall>a\<in>set articles. length (filter (\<lambda>kv. a \<in> set (snd kv)) cs) = 1)
     \<and> (\<forall>a\<in>set articles. \<forall>s. cat_of a = PStr s \<longrightarrow>
           (\<forall>kv\<in>set cs. a \<in> set (snd kv) \<longleftrightarrow> fst kv = PStr s))
     \<and> sum_list (map (\<lambda>kv. length (snd kv)) cs) = length articles
     \<and> (\<forall>kv\<in>set cs. sorted_wrt (\<lambda>a b. score a \<ge> score b) (snd kv))"
proof -
  define cs where "cs = map (\<lambda>k. (k, sort_key (\<lambda>x. - score x)
                                      (filter (\<lambda>a. dict_key (cat_of a) = dict_key k) articles)))
                          (bucket_keys articles)"
  have run: "build_categories articles = Inr cs"
    unfolding cs_def by (rule build_categories_closed [OF assms])
  have report: "\<forall>r. generate_report articles = Inr r \<longrightarrow> categories r = cs"
    by (auto simp: generate_report_def run split: sum.splits)
  have keys: "map fst cs = bucket_keys articles"
    by (simp add: cs_def o_def)
  have five: "take 5 (map fst cs) = map PStr category_order"
    by (simp add: keys bucket_keys_def) (simp add: category_order_def)
  have dist: "distinct (map (\<lambda>kv. dict_key (fst kv)) cs)"
    using bucket_keys_distinct [of articles] by (simp add: cs_def o_def)
  have content: "\<forall>kv\<in>set cs.
      mset (snd kv) = filter_mset (\<lambda>a. dict_key (cat_of a) = dict_key (fst kv)) (mset articles)"
    by (auto simp: cs_def)
  have once: "\<forall>a\<in>set articles. length (filter (\<lambda>kv. a \<in> set (snd kv)) cs) = 1"
  proof
    fix a assume a: "a \<in> set articles"
    have "filter (\<lambda>kv. a \<in> set (snd kv)) cs
        = map (\<lambda>k. (k, sort_key (\<lambda>x. - score x)
                          (filter (\<lambda>a. dict_key (cat_of a) = dict_key k) articles)))
            (filter (\<lambda>k. dict_key k = dict_key (cat_of a)) (bucket_keys articles))"
    proof -
      have "filter (\<lambda>k. a \<in> set articles \<and> dict_key (cat_of a) = dict_key k) (bucket_keys articles)
          = filter (\<lambda>k. dict_key k = dict_key (cat_of a)) (bucket_keys articles)"
        using a by (intro filter_cong) auto
      then show ?thesis
        by (simp add: cs_def filter_map o_def)
    qed
    then show "length (filter (\<lambda>kv. a \<in> set (snd kv)) cs) = 1"
      using one_match [OF bucket_keys_distinct bucket_keys_cover [OF a]] by simp
  qed
  have named: "\<forall>a\<in>set articles. \<forall>s. cat_of a = PStr s \<longrightarrow>
      (\<forall>kv\<in>set cs. a \<in> set (snd kv) \<longleftrightarrow> fst kv = PStr s)"
    by (auto simp: cs_def dict_key_str) (metis dict_key_str)+
  have total: "sum_list (map (\<lambda>kv. length (snd kv)) cs) = length articles"
  proof -
    have "sum_list (map (\<lambda>kv. length (snd kv)) cs)
        = sum_list (map (\<lambda>k. length (filter (\<lambda>a. dict_key (cat_of a) = dict_key k) articles))
                      (bucket_keys articles))"
      by (simp add: cs_def o_def)
    also have "\<dots> = length articles"
      by (rule sizes_sum [OF bucket_keys_distinct]) (simp add: bucket_keys_cover)
    finally show ?thesis .
  qed
  have ordered: "\<forall>kv\<in>set cs. sorted_wrt (\<lambda>a b. score a \<ge> score b) (snd kv)"
    by (auto simp: cs_def sort_by_hot_score_desc)
  from run report keys five dist content once named total ordered show ?thesis
    by blast
qed

theorem category_partition_witness:
  "build_categories [scored1, scored2, scored3]
     = Inr [(PStr [37325, 22823, 26032, 38395], []),
                (PStr [34892, 19994, 21160, 24577], [scored2]),
                (PStr [20135, 21697, 21457, 24067], []),
                (PStr [25216, 26415, 24178, 36135], []),
                (PStr [35266, 28857, 35780, 35770], []),
                (PStr [78, 69, 87], [scored1, scored3])]
   \<and> generate_report [scored1, scored2, scored3]
     = Inr \<lparr> categories =
               [(PStr [37325, 22823, 26032, 38395], []),
                (PStr [34892, 19994, 21160, 24577], [scored2]),
                (PStr [20135, 21697, 21457, 24067], []),
                (PStr [25216, 26415, 24178, 36135], []),
                (PStr [35266, 28857, 35780, 35770], []),
                (PStr [78, 69, 87], [scored1, scored3])],
             total_articles = 3, avg_hot_score = PFloat (Finite 8913374262504107 (- 47)),
             total_sources = 2, total_categories = 2 \<rparr>
   \<and> bucket_keys [scored1, scored2, scored3] = map PStr category_order @ [PStr [78, 69, 87]]
   \<and> length (filter (\<lambda>kv. scored1 \<in> set (snd kv))
         [(PStr [37325, 22823, 26032, 38395], []),
                (PStr [34892, 19994, 21160, 24577], [scored2]),
                (PStr [20135, 21697, 21457, 24067], []),
                (PStr [25216, 26415, 24178, 36135], []),
                (PStr [35266, 28857, 35780, 35770], []),
                (PStr [78, 69, 87], [scored1, scored3])]) = 1"
proof -
  from category_partition [OF sample_hashable] sample_categories
  have "length (filter (\<lambda>kv. scored1 \<in> set (snd kv))
         [(PStr [37325, 22823, 26032, 38395], []),
                (PStr [34892, 19994, 21160, 24577], [scored2]),
                (PStr [20135, 21697, 21457, 24067], []),
                (PStr [25216, 26415, 24178, 36135], []),
                (PStr [35266, 28857, 35780, 35770], []),
                (PStr [78, 69, 87], [scored1, scored3])]) = 1"
    by auto
  with sample_categories sample_report sample_keys show ?thesis by simp
qed

text \<open>
  The claim as the specification states it fails for some article lists: the service can
  answer with a category that is a list, \<open>process_all\<close> stores it on the article as it is,
  and the grouping of that article raises \<open>TypeError\<close>, so that there is no partition and
  no report.
\<close>

theorem unhashable_category_counterexample:
  "process_all list_env sample_key [art1] 0 = Inr ([listed1], Suc 0)
   \<and> cat_of listed1 = PList [PStr [88]]
   \<and> build_categories [listed1] = Inl TypeError"
  by (simp add: process_all_list_art1 cat_of_listed1 categories_listed1)

section \<open>The claims about the fetcher\<close>

lemma fetch_feed_total:
  assumes "src_url s \<noteq> None" and "src_name s \<noteq> None"
  shows "fetch_feed http_get parse_entry s n = Inr (source_articles http_get parse_entry s n, Suc n)"
  using assms
  by (auto simp: source_articles_def fetch_feed_def split: sum.splits)

lemma fetch_all_loop_concat:
  assumes "\<forall>s\<in>set sources. src_url s \<noteq> None \<and> src_name s \<noteq> None"
  shows "fetch_all_loop http_get parse_entry sources acc n
           = Inr (acc @ concat (map (\<lambda>(i, s). source_articles http_get parse_entry s i)
                                  (enumerate n sources)),
                  n + length sources)"
  using assms
proof (induction sources arbitrary: acc n)
  case Nil
  show ?case by simp
next
  case (Cons s sources)
  from Cons.prems have s: "src_url s \<noteq> None" "src_name s \<noteq> None"
    and rest: "\<forall>s\<in>set sources. src_url s \<noteq> None \<and> src_name s \<noteq> None"
    by simp_all
  show ?case
    by (simp add: fetch_feed_total [OF s] Cons.IH [OF rest])
qed

text \<open>
  Claim C8. For sources that carry a url and a name: when the request for a source raises,
  \<open>fetch_feed\<close> returns the empty list for it and does not raise; and \<open>fetch_all\<close> sends one
  request per source and returns the concatenation, in source order, of what
  \<open>fetch_feed\<close> returns for each source, so a failed source contributes the empty list and
  the sources after it are still fetched.
\<close>

theorem fetch_all_isolates_failures:
  assumes "\<forall>s\<in>set sources. src_url s \<noteq> None \<and> src_name s \<noteq> None"
  shows "(\<forall>s\<in>set sources. \<forall>m url e. src_url s = Some url \<and> http_get m url = Inl e \<longrightarrow>
            fetch_feed http_get parse_entry s m = Inr ([], Suc m)
            \<and> source_articles http_get parse_entry s m = [])
       \<and> fetch_all http_get parse_entry sources n
           = Inr (concat (map (\<lambda>(i, s). source_articles http_get parse_entry s i)
                            (enumerate n sources)),
                  n + length sources)"
proof (intro conjI ballI allI impI)
  fix s m url e
  assume s: "s \<in> set sources" and f: "src_url s = Some url \<and> http_get m url = Inl e"
  from assms s obtain nm where nm: "src_name s = Some nm" by auto
  from f nm show "fetch_feed http_get parse_entry s m = Inr ([], Suc m)"
    by (simp add: fetch_feed_def)
  then show "source_articles http_get parse_entry s m = []"
    by (simp add: source_articles_def)
next
  show "fetch_all http_get parse_entry sources n
           = Inr (concat (map (\<lambda>(i, s). source_articles http_get parse_entry s i)
                            (enumerate n sources)),
                  n + length sources)"
    using fetch_all_loop_concat [OF assms, of http_get parse_entry "[]" n]
    by (simp add: fetch_all_def)
qed

theorem fetch_all_isolates_failures_witness:
  "src_url source1 = Some [117, 49]
   \<and> sample_http 0 [117, 49] = Inl RequestException
   \<and> fetch_feed sample_http sample_parse source1 0 = Inr ([], Suc 0)
   \<and> fetch_feed sample_http sample_parse source2 1 = Inr ([art1, art2], 2)
   \<and> fetch_all sample_http sample_parse [source1, source2] 0 = Inr ([art1, art2], 2)"
proof -
  have wf: "\<forall>s\<in>set [source1, source2]. src_url s \<noteq> None \<and> src_name s \<noteq> None"
    by (simp add: source1_def source2_def)
  have ne: "nonempty_dict art1" "nonempty_dict art2"
    by (simp_all add: nonempty_dict_def art1_def art2_def blank_def)
  have u: "src_url source1 = Some [117, 49]"
    by (simp add: source1_def)
  have fail: "sample_http 0 [117, 49] = Inl RequestException"
    by (simp add: sample_http_def)
  have f2: "fetch_feed sample_http sample_parse source2 1 = Inr ([art1, art2], 2)"
    by (simp add: fetch_feed_def source2_def sample_http_def sample_parse_def ne)
  note t = fetch_all_isolates_failures [OF wf, of sample_http sample_parse 0]
  from t u fail have f1: "fetch_feed sample_http sample_parse source1 0 = Inr ([], Suc 0)"
    by simp
  from t f1 f2 have "fetch_all sample_http sample_parse [source1, source2] 0 = Inr ([art1, art2], 2)"
    by (simp add: source_articles_def)
  with u fail f1 f2 show ?thesis by simp
qed

end
